theory Spec2Isabelle
  imports
    Main
    "HOL-Library.Char_ord"
    "HOL-Library.List_Lexorder"
    "HOL-Library.AList"
begin

section \<open>Text primitives of the Python runtime\<close>


definition ascii_upper :: string where
  "ascii_upper = ''ABCDEFGHIJKLMNOPQRSTUVWXYZ''"

definition ascii_lower :: string where
  "ascii_lower = ''abcdefghijklmnopqrstuvwxyz''"

definition ascii_digits :: string where
  "ascii_digits = ''0123456789''"

text \<open>\<open>str.lower()\<close> and \<open>str.upper()\<close>, character by character, on ASCII text.\<close>

definition lower_char :: "char \<Rightarrow> char" where
  "lower_char c = (case map_of (zip ascii_upper ascii_lower) c of Some d \<Rightarrow> d | None \<Rightarrow> c)"

definition upper_char :: "char \<Rightarrow> char" where
  "upper_char c = (case map_of (zip ascii_lower ascii_upper) c of Some d \<Rightarrow> d | None \<Rightarrow> c)"

definition py_lower :: "string \<Rightarrow> string" where
  "py_lower s = map lower_char s"

definition py_upper :: "string \<Rightarrow> string" where
  "py_upper s = map upper_char s"

text \<open>
  The class \<open>\w\<close> of the \<open>re\<close> module on ASCII characters: letters, digits and the
  underscore.
\<close>

definition is_word_char :: "char \<Rightarrow> bool" where
  "is_word_char c \<longleftrightarrow> c \<in> set (ascii_lower @ ascii_upper @ ascii_digits @ ''_'')"

text \<open>
  ASCII letters and digits: behind a backslash they are the escapes with a meaning
  of their own (\<open>\b\<close>, \<open>\d\<close>, back references), never plain literals.
\<close>

definition is_alnum_char :: "char \<Rightarrow> bool" where
  "is_alnum_char c \<longleftrightarrow> c \<in> set (ascii_lower @ ascii_upper @ ascii_digits)"

text \<open>
  The ASCII characters \<open>str.strip()\<close> removes when it is called without an argument:
  tab, line feed, vertical tab, form feed, carriage return, the four separators
  \<open>0x1C\<close> to \<open>0x1F\<close>, and the space.
\<close>

definition is_space_char :: "char \<Rightarrow> bool" where
  "is_space_char c \<longleftrightarrow>
     c \<in> set [CHR 0x09, CHR 0x0A, CHR 0x0B, CHR 0x0C, CHR 0x0D,
               CHR 0x1C, CHR 0x1D, CHR 0x1E, CHR 0x1F, CHR '' '']"

text \<open>\<open>s.strip(chars)\<close>: drop from both ends every character that is in \<open>chars\<close>.\<close>

definition strip_chars :: "string \<Rightarrow> string \<Rightarrow> string" where
  "strip_chars chars s =
     rev (dropWhile (\<lambda>c. c \<in> set chars) (rev (dropWhile (\<lambda>c. c \<in> set chars) s)))"

text \<open>\<open>s.strip()\<close>: drop white space from both ends.\<close>

definition strip_ws :: "string \<Rightarrow> string" where
  "strip_ws s = rev (dropWhile is_space_char (rev (dropWhile is_space_char s)))"

text \<open>\<open>s.startswith(p)\<close> and \<open>s.endswith(p)\<close>.\<close>

definition startswith :: "string \<Rightarrow> string \<Rightarrow> bool" where
  "startswith s p \<longleftrightarrow> take (length p) s = p"

definition endswith :: "string \<Rightarrow> string \<Rightarrow> bool" where
  "endswith s p \<longleftrightarrow> length p \<le> length s \<and> drop (length s - length p) s = p"

text \<open>\<open>sep.join(parts)\<close>.\<close>

fun join :: "string \<Rightarrow> string list \<Rightarrow> string" where
  "join sep [] = []"
| "join sep [p] = p"
| "join sep (p # q # ps) = p @ sep @ join sep (q # ps)"

text \<open>
  Iterating over a text file yields its lines, each with its terminating newline;
  a last line without one is yielded as it is, and an empty file yields nothing.
\<close>

fun file_lines_acc :: "string \<Rightarrow> string \<Rightarrow> string list" where
  "file_lines_acc cur [] = (if cur = [] then [] else [cur])"
| "file_lines_acc cur (c # cs) =
     (if c = CHR 0x0A then (cur @ [c]) # file_lines_acc [] cs
      else file_lines_acc (cur @ [c]) cs)"

definition file_lines :: "string \<Rightarrow> string list" where
  "file_lines text = file_lines_acc [] text"

section \<open>The regular expressions the index generator builds\<close>

text \<open>
  \<open>re.escape\<close> puts a backslash before each character that is special in a pattern.
\<close>

definition re_special_chars :: string where
  "re_special_chars =
     ''()[]{}?*+-|^$'' @ [CHR 0x5C] @ ''.&~# '' @
     [CHR 0x09, CHR 0x0A, CHR 0x0D, CHR 0x0B, CHR 0x0C]"

fun re_escape :: "string \<Rightarrow> string" where
  "re_escape [] = []"
| "re_escape (c # cs) =
     (if c \<in> set re_special_chars then CHR 0x5C # c # re_escape cs else c # re_escape cs)"

text \<open>
  The fragment of the pattern language that \<open>scan_files\<close> reaches: the anchor
  \<open>\b\<close> and literal characters, written plainly or behind a backslash. Any other
  construct makes the parser give up, so that a pattern outside the fragment is
  never given a meaning it does not have.
\<close>

datatype re_item = Boundary | Lit char

definition re_meta_chars :: string where
  "re_meta_chars = ''.^$*+?{}[]|()''"

fun re_parse :: "string \<Rightarrow> re_item list option" where
  "re_parse [] = Some []"
| "re_parse [c] =
     (if c = CHR 0x5C \<or> c \<in> set re_meta_chars then None else Some [Lit c])"
| "re_parse (c # d # cs) =
     (if c = CHR 0x5C then
        (if d = CHR ''b'' then map_option (Cons Boundary) (re_parse cs)
         else if is_alnum_char d then None
         else map_option (Cons (Lit d)) (re_parse cs))
      else if c \<in> set re_meta_chars then None
      else map_option (Cons (Lit c)) (re_parse (d # cs)))"

text \<open>
  Matching at one position. The position is given by the character before it (if any)
  and the text from it on. \<open>\b\<close> holds where exactly one of the two neighbours is a
  word character, the ends of the text counting as non-word. Under
  \<open>re.IGNORECASE\<close> a literal matches a character with the same lower case; between
  ASCII characters that is all it matches.
\<close>

definition word_opt :: "char option \<Rightarrow> bool" where
  "word_opt p = (case p of None \<Rightarrow> False | Some c \<Rightarrow> is_word_char c)"

definition next_char :: "string \<Rightarrow> char option" where
  "next_char s = (case s of [] \<Rightarrow> None | c # _ \<Rightarrow> Some c)"

fun re_match_here :: "re_item list \<Rightarrow> char option \<Rightarrow> string \<Rightarrow> bool" where
  "re_match_here [] prev s = True"
| "re_match_here (Boundary # items) prev s =
     (word_opt prev \<noteq> word_opt (next_char s) \<and> re_match_here items prev s)"
| "re_match_here (Lit c # items) prev [] = False"
| "re_match_here (Lit c # items) prev (d # s) =
     (lower_char d = lower_char c \<and> re_match_here items (Some d) s)"

text \<open>\<open>re.search\<close> tries every position from left to right, the end of the text included.\<close>

fun re_search_from :: "re_item list \<Rightarrow> char option \<Rightarrow> string \<Rightarrow> bool" where
  "re_search_from items prev [] = re_match_here items prev []"
| "re_search_from items prev (d # s) =
     (re_match_here items prev (d # s) \<or> re_search_from items (Some d) s)"

text \<open>
  \<open>re.search(pattern, content, re.IGNORECASE)\<close> as a truth value; \<open>None\<close> stands
  for a pattern outside the modelled fragment.
\<close>

definition re_search :: "string \<Rightarrow> string \<Rightarrow> bool option" where
  "re_search pattern content =
     map_option (\<lambda>items. re_search_from items None content) (re_parse pattern)"

text \<open>The test of line 51 of \<open>generate_book_index.py\<close>.\<close>

definition term_pattern :: "string \<Rightarrow> string" where
  "term_pattern term = [CHR 0x5C, CHR ''b''] @ re_escape term @ [CHR 0x5C, CHR ''b'']"

definition term_hit :: "string \<Rightarrow> string \<Rightarrow> bool" where
  "term_hit term content = (re_search (term_pattern term) content = Some True)"

section \<open>The index generator: \<open>scripts/generate_book_index.py\<close>\<close>

subsection \<open>Module constants\<close>

definition BOOK_DIR :: string where
  "BOOK_DIR = ''book''"

definition IGNORE_DIRS :: "string list" where
  "IGNORE_DIRS = [''images'', ''back_matter'']"

definition IGNORE_FILES :: "string list" where
  "IGNORE_FILES = [''index.md'', ''SUMMARY.md'', ''BOOK_ENHANCEMENT_SUGGESTIONS.md'',
                   ''ERRATA.md'', ''LICENSE.md'']"

definition EXPLICIT_TERMS :: "string list" where
  "EXPLICIT_TERMS =
    [''BCC'', ''Body-Centered Cubic'', ''Octree'', ''Morton'', ''Hilbert'', ''SFC'',
     ''Isotropy'', ''Anisotropy'', ''Voronoi'', ''Truncated Octahedron'',
     ''Parity'', ''Coordinate'', ''Lattice'', ''Sampling'', ''Nyquist'',
     ''Galactic128'', ''Index64'', ''Route64'', ''Hilbert64'', ''Frame Registry'',
     ''Container'', ''Streaming'', ''Compression'', ''Delta Encoding'',
     ''SIMD'', ''AVX2'', ''NEON'', ''BMI2'', ''GPU'', ''CUDA'', ''Metal'', ''Vulkan'',
     ''Pathfinding'', ''A*'', ''Dijkstra'', ''Occupancy Grid'', ''SLAM'',
     ''Geospatial'', ''WGS84'', ''ECEF'', ''ENU'', ''GIS'',
     ''Molecular Dynamics'', ''Crystallography'', ''CFD'',
     ''Voxel'', ''LOD'', ''Level of Detail'', ''Procedural Generation'',
     ''Distributed'', ''Sharding'', ''Arrow'', ''Parquet'',
     ''Machine Learning'', ''GNN'', ''Point Cloud'', ''PyTorch'']"

subsection \<open>Paths\<close>

text \<open>\<open>os.path.join\<close> of two parts, on a POSIX system.\<close>

definition path_join :: "string \<Rightarrow> string \<Rightarrow> string" where
  "path_join a b =
     (if startswith b ''/'' then b
      else if a = [] \<or> endswith a ''/'' then a @ b
      else a @ ''/'' @ b)"

definition INDEX_FILE :: string where
  "INDEX_FILE = path_join (path_join BOOK_DIR ''back_matter'') ''index.md''"

text \<open>The components of a path: the pieces between slashes, empty pieces dropped.\<close>

fun path_parts_acc :: "string \<Rightarrow> string \<Rightarrow> string list" where
  "path_parts_acc cur [] = (if cur = [] then [] else [cur])"
| "path_parts_acc cur (c # cs) =
     (if c = CHR ''/'' then (if cur = [] then [] else [cur]) @ path_parts_acc [] cs
      else path_parts_acc (cur @ [c]) cs)"

definition path_parts :: "string \<Rightarrow> string list" where
  "path_parts p = path_parts_acc [] p"

fun common_prefix_len :: "string list \<Rightarrow> string list \<Rightarrow> nat" where
  "common_prefix_len (x # xs) (y # ys) = (if x = y then Suc (common_prefix_len xs ys) else 0)"
| "common_prefix_len _ _ = 0"

text \<open>
  \<open>os.path.relpath(path, start)\<close> for two paths relative to the working directory:
  both are made absolute against the same directory, which then is part of the common
  prefix, so only the components given here decide. One \<open>..\<close> for each component
  of \<open>start\<close> outside the common prefix, then the rest of \<open>path\<close>; \<open>.\<close> if
  nothing is left. (Components \<open>.\<close> and \<open>..\<close>, which a directory listing never
  returns, are not normalised.)
\<close>

definition relpath :: "string \<Rightarrow> string \<Rightarrow> string" where
  "relpath path start =
     (let start_list = path_parts start;
          path_list = path_parts path;
          i = common_prefix_len start_list path_list;
          rel_list = replicate (length start_list - i) ''..'' @ drop i path_list
      in if rel_list = [] then ''.'' else join ''/'' rel_list)"

text \<open>\<open>os.path.basename\<close>: what follows the last slash.\<close>

definition basename :: "string \<Rightarrow> string" where
  "basename p = rev (takeWhile (\<lambda>c. c \<noteq> CHR ''/'') (rev p))"

subsection \<open>The directory tree and \<open>os.walk\<close>\<close>

text \<open>
  What the script reads of the file system: the tree below \<open>BOOK_DIR\<close>. A file has
  a name and its text, a directory a name and its entries, in the order in which the
  directory listing returns them.
\<close>

datatype entry = File string string | Dir string "entry list"

fun files_in :: "entry list \<Rightarrow> (string \<times> string) list" where
  "files_in [] = []"
| "files_in (File name text # es) = (name, text) # files_in es"
| "files_in (Dir name sub # es) = files_in es"

text \<open>
  \<open>os.walk(top)\<close>, top down: a directory is yielded with its files before any of its
  subdirectories is entered, and the subdirectories are entered in listing order.
  The loop of \<open>scan_files\<close> prunes the list of subdirectories in place
  (\<open>dirs[:] = [d for d in dirs if d not in IGNORE_DIRS]\<close>) before the generator
  descends, so the descent skips those names; that statement is modelled here, where
  it takes effect. Each yielded item is the directory's path and its files.
\<close>

fun os_walk :: "string \<Rightarrow> entry list \<Rightarrow> (string \<times> (string \<times> string) list) list"
  and os_walk_subdirs :: "string \<Rightarrow> entry list \<Rightarrow> (string \<times> (string \<times> string) list) list"
where
  "os_walk dirpath es = (dirpath, files_in es) # os_walk_subdirs dirpath es"
| "os_walk_subdirs dirpath [] = []"
| "os_walk_subdirs dirpath (File name text # es) = os_walk_subdirs dirpath es"
| "os_walk_subdirs dirpath (Dir name sub # es) =
     (if name \<in> set IGNORE_DIRS then [] else os_walk (path_join dirpath name) sub)
     @ os_walk_subdirs dirpath es"

subsection \<open>\<open>get_title\<close>\<close>

text \<open>
  The file at \<open>path\<close> is opened and read line by line; \<open>text\<close> is what it holds.
\<close>

definition get_title :: "string \<Rightarrow> string \<Rightarrow> string" where
  "get_title path text =
     (case find (\<lambda>line. startswith line ''# '') (file_lines text) of
        Some line \<Rightarrow> strip_ws (strip_chars ''# '' line)
      | None \<Rightarrow> basename path)"

subsection \<open>\<open>scan_files\<close>\<close>

text \<open>
  The index is a \<open>defaultdict(list)\<close>: keys in insertion order, each with the list of
  (title, link path) pairs appended to it so far.
\<close>

type_synonym link = "string \<times> string"
type_synonym index = "(string \<times> link list) list"

text \<open>\<open>index[term].append(x)\<close>.\<close>

definition index_append :: "index \<Rightarrow> string \<Rightarrow> link \<Rightarrow> index" where
  "index_append index term x = AList.map_default term [x] (\<lambda>xs. xs @ [x]) index"

text \<open>The loop over the vocabulary for one file (lines 49 to 52).\<close>

definition scan_terms :: "string \<Rightarrow> string \<Rightarrow> string \<Rightarrow> index \<Rightarrow> index" where
  "scan_terms title link_path content index =
     fold (\<lambda>term index.
             if term_hit term content then index_append index term (title, link_path)
             else index)
          EXPLICIT_TERMS index"

text \<open>The body of the loop over the files of one directory (lines 35 to 52).\<close>

definition scan_file :: "string \<Rightarrow> string \<times> string \<Rightarrow> index \<Rightarrow> index" where
  "scan_file root f index =
     (let file = fst f; content = snd f in
      if \<not> endswith file ''.md'' \<or> file \<in> set IGNORE_FILES then index
      else
        let path = path_join root file;
            rel_path = relpath path BOOK_DIR;
            title = get_title path content;
            link_path = rel_path
        in scan_terms title link_path content index)"

definition scan_files :: "entry list \<Rightarrow> index" where
  "scan_files book =
     fold (\<lambda>(root, files) index. fold (scan_file root) files index)
          (os_walk BOOK_DIR book) []"

subsection \<open>\<open>generate_index_md\<close>\<close>

datatype py_error = IndexError

text \<open>\<open>unique_links[title] = path\<close> for each pair, starting from the empty dict.\<close>

definition unique_links :: "link list \<Rightarrow> link list" where
  "unique_links links = fold (\<lambda>(title, path) d. AList.update title path d) links []"

definition link_md :: "link \<Rightarrow> string" where
  "link_md l = ''['' @ fst l @ ''](../'' @ snd l @ '')''"

text \<open>\<open>index[term]\<close>; reading a missing key of a \<open>defaultdict(list)\<close> gives the empty list.\<close>

definition index_get :: "index \<Rightarrow> string \<Rightarrow> link list" where
  "index_get index term = (case map_of index term of Some links \<Rightarrow> links | None \<Rightarrow> [])"

text \<open>
  The loop over the sorted terms. \<open>term[0]\<close> raises \<open>IndexError\<close> on the empty
  string.
\<close>

fun index_loop :: "index \<Rightarrow> string list \<Rightarrow> string \<Rightarrow> string \<Rightarrow> py_error + string" where
  "index_loop index [] current_letter md_content = Inr md_content"
| "index_loop index (term # terms) current_letter md_content =
     (case term of
        [] \<Rightarrow> Inl IndexError
      | c # _ \<Rightarrow>
         let letter = py_upper [c];
             md1 = (if letter \<noteq> current_letter
                    then md_content @ ''\<newline>## '' @ letter @ ''\<newline>\<newline>''
                    else md_content);
             links_md = join '', '' (map link_md (unique_links (index_get index term)));
             md2 = md1 @ ''- **'' @ term @ ''**: '' @ links_md @ ''\<newline>''
         in index_loop index terms letter md2)"

definition generate_index_md :: "index \<Rightarrow> py_error + string" where
  "generate_index_md index =
     (let sorted_terms = sort_key py_lower (map fst index)
      in index_loop index sorted_terms [] ''# Index\<newline>\<newline>'')"

subsection \<open>\<open>main\<close>\<close>

text \<open>
  \<open>main\<close> prints three lines and writes the page to \<open>INDEX_FILE\<close>, whose
  directory it creates when missing. A run is given by the lines printed and the file
  written; an exception raised by \<open>generate_index_md\<close> leaves \<open>main\<close>.
\<close>

text \<open>Decimal digits of a number, as an f-string prints it.\<close>

fun decimal :: "nat \<Rightarrow> string" where
  "decimal n =
     (if n < 10 then [ascii_digits ! n]
      else decimal (n div 10) @ [ascii_digits ! (n mod 10)])"

record index_run =
  printed :: "string list"
  written_path :: string
  written_text :: string

definition index_main :: "entry list \<Rightarrow> py_error + index_run" where
  "index_main book =
     (let index_data = scan_files book in
      case generate_index_md index_data of
        Inl e \<Rightarrow> Inl e
      | Inr content \<Rightarrow>
          Inr \<lparr> printed = [''Scanning book content in '' @ BOOK_DIR @ ''...'',
                            ''Found '' @ decimal (length index_data) @ '' terms.'',
                            ''Index generated at '' @ INDEX_FILE],
                written_path = INDEX_FILE,
                written_text = content \<rparr>)"

section \<open>The figure generator: \<open>scripts/generate_book_figures.py\<close>\<close>

text \<open>
  The charts are drawn by matplotlib from constants; what the script itself decides is
  which calls are made, in which order, what is printed and which files are saved.
  The outcome of each call into the operating system or into matplotlib is given by
  the environment of the run: whether \<open>OUTPUT_DIR\<close> exists when the script starts,
  whether \<open>os.makedirs\<close> raises, and for each of the three plotting functions whether
  it runs to its end, saving its file, or raises. What is raised is an instance of
  \<open>Exception\<close>, given by its message; a plotting function that raises counts as
  having saved nothing.
\<close>

definition OUTPUT_DIR :: string where
  "OUTPUT_DIR = ''book/images''"

datatype call_outcome = Returns | Raises string

record fig_env =
  output_dir_exists :: bool
  makedirs_outcome :: call_outcome
  neighbor_lookup_outcome :: call_outcome
  memory_usage_outcome :: call_outcome
  isotropy_outcome :: call_outcome

text \<open>What a run has done so far: the lines printed, the directories made, the files saved.\<close>

record fig_state =
  console :: "string list"
  made_dirs :: "string list"
  saved_files :: "string list"

definition print_line :: "string \<Rightarrow> fig_state \<Rightarrow> fig_state" where
  "print_line l s = s\<lparr>console := console s @ [l]\<rparr>"

definition savefig :: "string \<Rightarrow> fig_state \<Rightarrow> fig_state" where
  "savefig path s = s\<lparr>saved_files := saved_files s @ [path]\<rparr>"

definition ensure_output_dir :: "fig_env \<Rightarrow> fig_state \<Rightarrow> string + fig_state" where
  "ensure_output_dir env s =
     (if \<not> output_dir_exists env then
        (case makedirs_outcome env of
           Raises e \<Rightarrow> Inl e
         | Returns \<Rightarrow> Inr (s\<lparr>made_dirs := made_dirs s @ [OUTPUT_DIR]\<rparr>))
      else Inr s)"

definition plot_neighbor_lookup :: "fig_env \<Rightarrow> fig_state \<Rightarrow> string + fig_state" where
  "plot_neighbor_lookup env s =
     (case neighbor_lookup_outcome env of
        Raises e \<Rightarrow> Inl e
      | Returns \<Rightarrow> Inr (savefig (path_join OUTPUT_DIR ''benchmark_neighbor_lookup.png'') s))"

definition plot_memory_usage :: "fig_env \<Rightarrow> fig_state \<Rightarrow> string + fig_state" where
  "plot_memory_usage env s =
     (case memory_usage_outcome env of
        Raises e \<Rightarrow> Inl e
      | Returns \<Rightarrow> Inr (savefig (path_join OUTPUT_DIR ''benchmark_memory_efficiency.png'') s))"

definition plot_isotropy :: "fig_env \<Rightarrow> fig_state \<Rightarrow> string + fig_state" where
  "plot_isotropy env s =
     (case isotropy_outcome env of
        Raises e \<Rightarrow> Inl e
      | Returns \<Rightarrow> Inr (savefig (path_join OUTPUT_DIR ''benchmark_isotropy.png'') s))"

text \<open>
  The body of the \<open>try\<close> statement (lines 87 to 94). A raise leaves the body at once;
  it is returned with the state reached, which the handler goes on from.
\<close>

definition try_body :: "fig_env \<Rightarrow> fig_state \<Rightarrow> (string \<times> fig_state) + fig_state" where
  "try_body env s0 =
     (case plot_neighbor_lookup env s0 of
        Inl e \<Rightarrow> Inl (e, s0)
      | Inr s1 \<Rightarrow>
         let s2 = print_line ''Generated benchmark_neighbor_lookup.png'' s1 in
         (case plot_memory_usage env s2 of
            Inl e \<Rightarrow> Inl (e, s2)
          | Inr s3 \<Rightarrow>
             let s4 = print_line ''Generated benchmark_memory_efficiency.png'' s3 in
             (case plot_isotropy env s4 of
                Inl e \<Rightarrow> Inl (e, s4)
              | Inr s5 \<Rightarrow> Inr (print_line ''Generated benchmark_isotropy.png'' s5))))"

text \<open>
  \<open>main\<close>: \<open>Inl\<close> is an exception that leaves \<open>main\<close>, with the state reached;
  \<open>Inr\<close> is a normal return. \<open>ensure_output_dir\<close> is called outside the
  \<open>try\<close> statement.
\<close>

definition figures_main :: "fig_env \<Rightarrow> (string \<times> fig_state) + fig_state" where
  "figures_main env =
     (let s0 = print_line (''Generating figures in '' @ OUTPUT_DIR @ ''...'')
                 \<lparr>console = [], made_dirs = [], saved_files = []\<rparr> in
      case ensure_output_dir env s0 of
        Inl e \<Rightarrow> Inl (e, s0)
      | Inr s1 \<Rightarrow>
         (case try_body env s1 of
            Inr s \<Rightarrow> Inr s
          | Inl (e, s) \<Rightarrow>
             Inr (print_line ''Ensure matplotlib is installed: pip install matplotlib''
                   (print_line (''Error generating plots: '' @ e) s))))"

text \<open>
  The script calls \<open>main()\<close> and nothing else: the interpreter ends with status 0
  when \<open>main\<close> returns and with status 1 when an exception leaves it.
\<close>

definition figures_exit_status :: "fig_env \<Rightarrow> nat" where
  "figures_exit_status env = (case figures_main env of Inl _ \<Rightarrow> 1 | Inr _ \<Rightarrow> 0)"

section \<open>Notions the properties are stated with\<close>

subsection \<open>Whole-word occurrence\<close>

text \<open>
  A word boundary lies at position \<open>i\<close> of a text when exactly one of the characters
  before and after the position is a word character; a missing neighbour, at either
  end of the text, counts as a non-word character.
\<close>

definition boundary_at :: "string \<Rightarrow> nat \<Rightarrow> bool" where
  "boundary_at s i \<longleftrightarrow>
     (0 < i \<and> is_word_char (s ! (i - 1))) \<noteq> (i < length s \<and> is_word_char (s ! i))"

text \<open>
  The term stands at position \<open>i\<close> of the content as a whole word: the characters from
  \<open>i\<close> on spell the term up to case, with a word boundary before and after them.
\<close>

definition whole_word_at :: "string \<Rightarrow> string \<Rightarrow> nat \<Rightarrow> bool" where
  "whole_word_at term content i \<longleftrightarrow>
     i + length term \<le> length content \<and>
     py_lower (take (length term) (drop i content)) = py_lower term \<and>
     boundary_at content i \<and> boundary_at content (i + length term)"

definition contains_whole_word :: "string \<Rightarrow> string \<Rightarrow> bool" where
  "contains_whole_word term content \<longleftrightarrow>
     (\<exists>i \<in> set [0 ..< Suc (length content)]. whole_word_at term content i)"

text \<open>The character before position \<open>i\<close> of a text, if there is one.\<close>

definition prev_at :: "string \<Rightarrow> nat \<Rightarrow> char option" where
  "prev_at s i = (if i = 0 then None else Some (s ! (i - 1)))"

subsection \<open>The plotting calls of one run\<close>

definition plot_outcomes :: "fig_env \<Rightarrow> call_outcome list" where
  "plot_outcomes env =
     [neighbor_lookup_outcome env, memory_usage_outcome env, isotropy_outcome env]"

definition FIGURE_NAMES :: "string list" where
  "FIGURE_NAMES = [''benchmark_neighbor_lookup.png'', ''benchmark_memory_efficiency.png'',
                   ''benchmark_isotropy.png'']"

text \<open>The first call of a sequence that raises: its position and the message.\<close>

fun first_raise :: "call_outcome list \<Rightarrow> (nat \<times> string) option" where
  "first_raise [] = None"
| "first_raise (Raises e # outcomes) = Some (0, e)"
| "first_raise (Returns # outcomes) =
     map_option (\<lambda>(k, e). (Suc k, e)) (first_raise outcomes)"

subsection \<open>The files that reach the scan\<close>

text \<open>
  The files for which the loop body of \<open>scan_files\<close> gets past its \<open>continue\<close>,
  in the order of the walk, each with the directory path it was yielded under.
\<close>

definition passes_filter :: "string \<Rightarrow> bool" where
  "passes_filter file \<longleftrightarrow> endswith file ''.md'' \<and> file \<notin> set IGNORE_FILES"

definition scanned_files :: "entry list \<Rightarrow> (string \<times> string \<times> string) list" where
  "scanned_files book =
     concat (map (\<lambda>(root, files).
                    map (\<lambda>(file, content). (root, file, content))
                        (filter (\<lambda>(file, content). passes_filter file) files))
                 (os_walk BOOK_DIR book))"

text \<open>The pair appended to the index for a scanned file: its title and its link path.\<close>

definition file_link :: "string \<times> string \<times> string \<Rightarrow> link" where
  "file_link rfc =
     (case rfc of (root, file, content) \<Rightarrow>
        (get_title (path_join root file) content, relpath (path_join root file) BOOK_DIR))"

subsection \<open>The generated page, line by line\<close>

text \<open>
  The page that \<open>generate_index_md\<close> builds is its heading followed by two kinds of
  pieces: a section header for a letter, and the line of a term with its links.
\<close>

datatype md_line = Section string | TermLine string "link list"

fun render_line :: "md_line \<Rightarrow> string" where
  "render_line (Section letter) = ''\<newline>## '' @ letter @ ''\<newline>\<newline>''"
| "render_line (TermLine term links) =
     ''- **'' @ term @ ''**: '' @ join '', '' (map link_md links) @ ''\<newline>''"

text \<open>The letter a term is filed under: its first character in upper case.\<close>

definition letter_of :: "string \<Rightarrow> string" where
  "letter_of term = py_upper (take 1 term)"

text \<open>
  The pieces that the loop of \<open>generate_index_md\<close> appends for a list of terms, given
  the letter of the section that is open.
\<close>

fun lines_loop :: "index \<Rightarrow> string list \<Rightarrow> string \<Rightarrow> md_line list" where
  "lines_loop index [] current_letter = []"
| "lines_loop index (term # terms) current_letter =
     (if letter_of term \<noteq> current_letter then [Section (letter_of term)] else [])
     @ TermLine term (unique_links (index_get index term))
     # lines_loop index terms (letter_of term)"

definition index_lines :: "index \<Rightarrow> md_line list" where
  "index_lines index = lines_loop index (sort_key py_lower (map fst index)) []"

definition render_page :: "md_line list \<Rightarrow> string" where
  "render_page ls = ''# Index\<newline>\<newline>'' @ concat (map render_line ls)"

subsection \<open>Every file of the tree, and the excluded ones\<close>

text \<open>
  All files of a tree, each with the names of the directories that lead to it from the
  root of the tree, listed directory by directory: the files of a directory first, then
  the files below each of its subdirectories.
\<close>

fun all_files :: "entry list \<Rightarrow> (string list \<times> string \<times> string) list"
  and all_files_sub :: "entry list \<Rightarrow> (string list \<times> string \<times> string) list"
where
  "all_files es = map (\<lambda>(file, content). ([], file, content)) (files_in es) @ all_files_sub es"
| "all_files_sub [] = []"
| "all_files_sub (File name text # es) = all_files_sub es"
| "all_files_sub (Dir name sub # es) =
     map (\<lambda>(dirs, file, content). (name # dirs, file, content)) (all_files sub)
     @ all_files_sub es"

text \<open>
  A file is excluded when one of the directories leading to it is named in
  \<open>IGNORE_DIRS\<close>, when its name is in \<open>IGNORE_FILES\<close>, or when its name does not
  end in \<open>.md\<close>.
\<close>

definition excluded :: "string list \<times> string \<times> string \<Rightarrow> bool" where
  "excluded x =
     (case x of (dirs, file, content) \<Rightarrow>
        (\<exists>d \<in> set dirs. d \<in> set IGNORE_DIRS) \<or> file \<in> set IGNORE_FILES \<or>
        \<not> endswith file ''.md'')"

text \<open>The path of a directory given by the names leading to it from \<open>BOOK_DIR\<close>.\<close>

definition dir_path :: "string list \<Rightarrow> string" where
  "dir_path dirs = foldl path_join BOOK_DIR dirs"

definition place :: "string list \<times> string \<times> string \<Rightarrow> string \<times> string \<times> string" where
  "place x = (case x of (dirs, file, content) \<Rightarrow> (dir_path dirs, file, content))"

text \<open>The items of a walk, file by file: each file with the path of its directory.\<close>

definition walk_items ::
  "(string \<times> (string \<times> string) list) list \<Rightarrow> (string \<times> string \<times> string) list" where
  "walk_items w =
     concat (map (\<lambda>(root, files). map (\<lambda>(file, content). (root, file, content)) files) w)"

subsection \<open>Reading the order of the page\<close>

text \<open>The terms of the term lines of a page, and the letters of its section headers, in order.\<close>

fun line_terms :: "md_line list \<Rightarrow> string list" where
  "line_terms [] = []"
| "line_terms (Section letter # ls) = line_terms ls"
| "line_terms (TermLine term links # ls) = term # line_terms ls"

fun section_letters :: "md_line list \<Rightarrow> string list" where
  "section_letters [] = []"
| "section_letters (Section letter # ls) = letter # section_letters ls"
| "section_letters (TermLine term links # ls) = section_letters ls"

text \<open>
  What may stand directly after what: after a header, a term line of the header's
  letter; after a term line, either a term line of the same letter or the header of
  another letter. A header never follows a header.
\<close>

fun follows :: "md_line \<Rightarrow> md_line \<Rightarrow> bool" where
  "follows (Section letter) (TermLine term links) = (letter_of term = letter)"
| "follows (TermLine term links) (TermLine term' links') = (letter_of term' = letter_of term)"
| "follows (TermLine term links) (Section letter) = (letter \<noteq> letter_of term)"
| "follows (Section letter) (Section letter') = False"

definition is_section :: "md_line \<Rightarrow> bool" where
  "is_section l = (case l of Section _ \<Rightarrow> True | TermLine _ _ \<Rightarrow> False)"

subsection \<open>Headings and sections\<close>

text \<open>The first line of a text that starts with the marker of a level-one heading.\<close>

definition first_heading :: "string \<Rightarrow> string option" where
  "first_heading text = find (\<lambda>line. startswith line ''# '') (file_lines text)"

text \<open>
  A line stands in the section of a letter when the header of that letter comes before
  it on the page with no other header in between.
\<close>

definition in_section :: "string \<Rightarrow> md_line \<Rightarrow> md_line list \<Rightarrow> bool" where
  "in_section letter x ls \<longleftrightarrow>
     (\<exists>a b c. ls = a @ Section letter # b @ x # c \<and> (\<forall>y \<in> set b. \<not> is_section y))"

subsection \<open>Names and their paths\<close>

text \<open>A name that a directory listing can return: not empty and without a slash.\<close>

definition valid_name :: "string \<Rightarrow> bool" where
  "valid_name n \<longleftrightarrow> n \<noteq> [] \<and> CHR ''/'' \<notin> set n"

section \<open>The pattern of a term and what it matches\<close>

text \<open>
  The pattern built for a term always parses: escaping leaves only literals between
  the two anchors.
\<close>

lemma special_not_alnum: "c \<in> set re_special_chars \<Longrightarrow> \<not> is_alnum_char c \<and> c \<noteq> CHR ''b''"
  by (auto simp: re_special_chars_def is_alnum_char_def ascii_lower_def ascii_upper_def ascii_digits_def)

lemma meta_special: "c \<notin> set re_special_chars \<Longrightarrow> c \<noteq> CHR 0x5C \<and> c \<notin> set re_meta_chars"
  by (auto simp: re_special_chars_def re_meta_chars_def)

lemma re_parse_escape:
  "re_parse (re_escape t @ [CHR 0x5C, CHR ''b'']) = Some (map Lit t @ [Boundary])"
proof (induction t)
  case Nil
  show ?case by simp
next
  case (Cons c cs)
  show ?case
  proof (cases "c \<in> set re_special_chars")
    case True
    with Cons special_not_alnum[OF True] show ?thesis by simp
  next
    case False
    obtain d ds where r: "re_escape cs @ [CHR 0x5C, CHR ''b''] = d # ds"
      by (cases "re_escape cs @ [CHR 0x5C, CHR ''b'']") auto
    from False meta_special[OF False] Cons show ?thesis
      by (simp add: r)
  qed
qed

lemma re_parse_term_pattern:
  "re_parse (term_pattern t) = Some (Boundary # map Lit t @ [Boundary])"
  by (simp add: term_pattern_def re_parse_escape)

lemma term_hit_search:
  "term_hit t content = re_search_from (Boundary # map Lit t @ [Boundary]) None content"
  by (simp add: term_hit_def re_search_def re_parse_term_pattern)

lemma match_lits:
  "re_match_here (map Lit t @ items) prev s \<longleftrightarrow>
     length t \<le> length s \<and> py_lower (take (length t) s) = py_lower t \<and>
     re_match_here items (if t = [] then prev else Some (s ! (length t - 1))) (drop (length t) s)"
proof (induction t arbitrary: prev s)
  case Nil
  show ?case by (simp add: py_lower_def)
next
  case (Cons c cs)
  show ?case
  proof (cases s)
    case Nil
    then show ?thesis by simp
  next
    case (Cons d ds)
    show ?thesis unfolding Cons using Cons.IH[of "Some d" ds]
      by (cases cs) (auto simp: py_lower_def)
  qed
qed

lemma boundary_word_opt:
  assumes "i \<le> length s"
  shows "(word_opt (prev_at s i) \<noteq> word_opt (next_char (drop i s))) = boundary_at s i"
proof (cases "i < length s")
  case True
  then have "drop i s = s ! i # drop (Suc i) s" by (simp add: Cons_nth_drop_Suc)
  with True show ?thesis
    by (simp add: word_opt_def prev_at_def next_char_def boundary_at_def)
next
  case False
  with assms have "drop i s = []" by simp
  with False show ?thesis
    by (simp add: word_opt_def prev_at_def next_char_def boundary_at_def)
qed

lemma match_term_at:
  assumes "i \<le> length s"
  shows "re_match_here (Boundary # map Lit t @ [Boundary]) (prev_at s i) (drop i s)
         = whole_word_at t s i"
proof (cases "i + length t \<le> length s")
  case False
  with assms have n: "\<not> length t \<le> length (drop i s)" by simp
  show ?thesis
    unfolding re_match_here.simps match_lits whole_word_at_def using n False by blast
next
  case True
  have p: "(if t = [] then prev_at s i else Some (drop i s ! (length t - 1)))
           = prev_at s (i + length t)"
    using True by (cases t) (auto simp: prev_at_def)
  have d: "drop (length t) (drop i s) = drop (i + length t) s"
    by (simp add: add.commute)
  have len: "length t \<le> length (drop i s)" using True by simp
  show ?thesis
    unfolding re_match_here.simps match_lits p d
    using True len boundary_word_opt[OF assms] boundary_word_opt[OF True]
    by (simp add: whole_word_at_def) blast
qed

lemma search_from_iff:
  "k \<le> length s \<Longrightarrow>
   re_search_from items (prev_at s k) (drop k s) \<longleftrightarrow>
     (\<exists>i. k \<le> i \<and> i \<le> length s \<and> re_match_here items (prev_at s i) (drop i s))"
proof (induction "length s - k" arbitrary: k)
  case 0
  then show ?case by auto
next
  case (Suc n)
  then have lt: "k < length s" by simp
  then have d: "drop k s = s ! k # drop (Suc k) s" by (simp add: Cons_nth_drop_Suc)
  have pk: "Some (s ! k) = prev_at s (Suc k)" by (simp add: prev_at_def)
  have IH: "re_search_from items (prev_at s (Suc k)) (drop (Suc k) s) \<longleftrightarrow>
     (\<exists>i. Suc k \<le> i \<and> i \<le> length s \<and> re_match_here items (prev_at s i) (drop i s))"
    using Suc by (intro Suc.hyps(1)) auto
  show ?case
    unfolding d re_search_from.simps pk IH unfolding d[symmetric]
    using lt by (metis Suc_leD Suc_leI le_neq_implies_less less_or_eq_imp_le)
qed

lemma term_hit_iff: "term_hit t content = contains_whole_word t content"
proof -
  have "term_hit t content \<longleftrightarrow>
        (\<exists>i. i \<le> length content \<and>
             re_match_here (Boundary # map Lit t @ [Boundary]) (prev_at content i) (drop i content))"
    using search_from_iff[of 0 content "Boundary # map Lit t @ [Boundary]"]
    by (simp add: term_hit_search prev_at_def)
  also have "\<dots> \<longleftrightarrow> (\<exists>i. i \<le> length content \<and> whole_word_at t content i)"
    using match_term_at by blast
  also have "\<dots> \<longleftrightarrow> contains_whole_word t content"
    unfolding contains_whole_word_def set_upt Bex_def atLeastLessThan_iff
    by (simp only: less_Suc_eq_le) simp
  finally show ?thesis .
qed

section \<open>What \<open>scan_files\<close> records\<close>

text \<open>
  The list recorded under a term grows by one pair for each file that passes the filter
  and whose text the term hits. The lemmas follow the three nested loops from the
  inside out; the vocabulary has no repeated term, so a file adds at most one pair.
\<close>

lemma index_get_append:
  "index_get (index_append index k x) t =
     (if t = k then index_get index k @ [x] else index_get index t)"
  by (simp add: index_get_def index_append_def map_of_map_default split: option.splits)

lemma index_get_fold_terms:
  "distinct ts \<Longrightarrow>
   index_get (fold (\<lambda>term index. if P term then index_append index term x else index) ts index) t
   = index_get index t @ (if t \<in> set ts \<and> P t then [x] else [])"
proof (induction ts arbitrary: index)
  case Nil
  show ?case by simp
next
  case (Cons a ts)
  then show ?case by (auto simp: index_get_append)
qed

lemma distinct_EXPLICIT_TERMS: "distinct EXPLICIT_TERMS"
  by (simp add: EXPLICIT_TERMS_def)

lemma index_get_scan_terms:
  "index_get (scan_terms title link_path content index) t
   = index_get index t @
     (if t \<in> set EXPLICIT_TERMS \<and> term_hit t content then [(title, link_path)] else [])"
  unfolding scan_terms_def
  by (rule index_get_fold_terms[OF distinct_EXPLICIT_TERMS])

lemma index_get_scan_file:
  "index_get (scan_file root (file, content) index) t
   = index_get index t @
     (if passes_filter file \<and> t \<in> set EXPLICIT_TERMS \<and> term_hit t content
      then [file_link (root, file, content)] else [])"
  by (simp add: scan_file_def Let_def index_get_scan_terms passes_filter_def file_link_def)

lemma index_get_fold_scan_file:
  "index_get (fold (scan_file root) files index) t
   = index_get index t @
     (if t \<in> set EXPLICIT_TERMS
      then map file_link
             (filter (\<lambda>(r, f, c). term_hit t c)
                (map (\<lambda>(file, content). (root, file, content))
                   (filter (\<lambda>(file, content). passes_filter file) files)))
      else [])"
proof (induction files arbitrary: index)
  case Nil
  show ?case by simp
next
  case (Cons fc files)
  obtain f c where fc: "fc = (f, c)" by (cases fc)
  show ?case unfolding fc by (simp add: Cons.IH index_get_scan_file)
qed

lemma index_get_fold_walk:
  "index_get (fold (\<lambda>(root, files) index. fold (scan_file root) files index) w index) t
   = index_get index t @
     (if t \<in> set EXPLICIT_TERMS
      then map file_link
             (filter (\<lambda>(r, f, c). term_hit t c)
                (concat (map (\<lambda>(root, files).
                    map (\<lambda>(file, content). (root, file, content))
                        (filter (\<lambda>(file, content). passes_filter file) files)) w)))
      else [])"
proof (induction w arbitrary: index)
  case Nil
  show ?case by simp
next
  case (Cons rf w)
  obtain r fs where rf: "rf = (r, fs)" by (cases rf)
  show ?case unfolding rf by (simp add: Cons.IH index_get_fold_scan_file)
qed

lemma index_get_scan_files:
  "index_get (scan_files book) t =
     (if t \<in> set EXPLICIT_TERMS
      then map file_link (filter (\<lambda>(r, f, c). term_hit t c) (scanned_files book))
      else [])"
proof -
  have e: "index_get [] t = []" by (simp add: index_get_def)
  show ?thesis
    unfolding scan_files_def scanned_files_def index_get_fold_walk e by simp
qed




section \<open>The structure of the generated page\<close>

text \<open>
  The string that the loop builds is the rendering of \<open>lines_loop\<close>, piece by piece;
  an empty key makes the loop raise. The links of a line have distinct titles, and the
  path kept for a title is the one of the last pair with that title.
\<close>

lemma index_loop_lines:
  "[] \<notin> set terms \<Longrightarrow>
   index_loop index terms cur md = Inr (md @ concat (map render_line (lines_loop index terms cur)))"
proof (induction terms arbitrary: cur md)
  case Nil
  show ?case by simp
next
  case (Cons t ts)
  then obtain c cs where t: "t = c # cs" by (cases t) auto
  from Cons have "[] \<notin> set ts" by simp
  note IH = Cons.IH[OF this]
  show ?case unfolding t
    by (simp add: IH Let_def letter_of_def)
qed

lemma index_loop_empty_term:
  "[] \<in> set terms \<Longrightarrow> index_loop index terms cur md = Inl IndexError"
proof (induction terms arbitrary: cur md)
  case Nil
  then show ?case by simp
next
  case (Cons t ts)
  show ?case
  proof (cases t)
    case Nil
    then show ?thesis by simp
  next
    case (Cons c cs)
    with Cons.prems have "[] \<in> set ts" by auto
    from Cons.IH[OF this] show ?thesis unfolding Cons by (simp add: Let_def)
  qed
qed

lemma generate_index_md_lines:
  "generate_index_md index =
     (if [] \<in> fst ` set index then Inl IndexError else Inr (render_page (index_lines index)))"
proof (cases "[] \<in> fst ` set index")
  case True
  then have "[] \<in> set (sort_key py_lower (map fst index))" by simp
  from index_loop_empty_term[OF this] True show ?thesis
    by (simp add: generate_index_md_def)
next
  case False
  then have "[] \<notin> set (sort_key py_lower (map fst index))" by simp
  from index_loop_lines[OF this] False show ?thesis
    by (simp add: generate_index_md_def render_page_def index_lines_def)
qed

lemma map_of_fold_update:
  "map_of (fold (\<lambda>(title, path) d. AList.update title path d) links d)
   = map_of d ++ map_of (rev links)"
proof (induction links arbitrary: d)
  case Nil
  show ?case by simp
next
  case (Cons x xs)
  obtain t p where x: "x = (t, p)" by (cases x)
  show ?case unfolding x
    by (simp add: Cons.IH update_conv' map_of_append fun_eq_iff map_add_def split: option.splits)
qed

lemma map_of_unique_links: "map_of (unique_links links) = map_of (rev links)"
  by (simp add: unique_links_def map_of_fold_update)

lemma distinct_fold_update:
  "distinct (map fst d) \<Longrightarrow>
   distinct (map fst (fold (\<lambda>(title, path) d. AList.update title path d) links d))"
proof (induction links arbitrary: d)
  case Nil
  then show ?case by simp
next
  case (Cons x xs)
  obtain t p where x: "x = (t, p)" by (cases x)
  show ?case unfolding x using Cons by (simp add: distinct_update)
qed

lemma distinct_unique_links: "distinct (map fst (unique_links links))"
  by (simp add: unique_links_def distinct_fold_update)

lemma titles_unique_links: "fst ` set (unique_links links) = fst ` set links"
proof -
  have "dom (map_of (unique_links links)) = dom (map_of (rev links))"
    by (simp add: map_of_unique_links)
  then show ?thesis by (simp add: dom_map_of_conv_image_fst)
qed

lemma map_of_rev_last:
  "map_of (rev links) t = Some p \<longleftrightarrow>
     (\<exists>pre post. links = pre @ (t, p) # post \<and> t \<notin> fst ` set post)"
proof (induction links rule: rev_induct)
  case Nil
  show ?case by simp
next
  case (snoc x xs)
  obtain t' p' where x: "x = (t', p')" by (cases x)
  show ?case
  proof (cases "t' = t")
    case True
    have "(\<exists>pre post. xs @ [x] = pre @ (t, p) # post \<and> t \<notin> fst ` set post) \<longleftrightarrow> p' = p"
    proof
      assume "\<exists>pre post. xs @ [x] = pre @ (t, p) # post \<and> t \<notin> fst ` set post"
      then obtain pre post where e: "xs @ [x] = pre @ (t, p) # post" and n: "t \<notin> fst ` set post"
        by blast
      show "p' = p"
      proof (cases post rule: rev_cases)
        case Nil
        with e x show ?thesis by simp
      next
        case (snoc ys y)
        with e have "y = x" by simp
        with snoc n x True show ?thesis by simp
      qed
    next
      assume "p' = p"
      with x True have "xs @ [x] = xs @ (t, p) # []" by simp
      then show "\<exists>pre post. xs @ [x] = pre @ (t, p) # post \<and> t \<notin> fst ` set post"
        by (metis empty_iff image_empty list.set(1))
    qed
    with True x show ?thesis by simp
  next
    case False
    have "(\<exists>pre post. xs @ [x] = pre @ (t, p) # post \<and> t \<notin> fst ` set post) \<longleftrightarrow>
          (\<exists>pre post. xs = pre @ (t, p) # post \<and> t \<notin> fst ` set post)"
    proof
      assume "\<exists>pre post. xs @ [x] = pre @ (t, p) # post \<and> t \<notin> fst ` set post"
      then obtain pre post where e: "xs @ [x] = pre @ (t, p) # post" and n: "t \<notin> fst ` set post"
        by blast
      show "\<exists>pre post. xs = pre @ (t, p) # post \<and> t \<notin> fst ` set post"
      proof (cases post rule: rev_cases)
        case Nil
        with e x False show ?thesis by simp
      next
        case (snoc ys y)
        with e have "xs = pre @ (t, p) # ys" by simp
        moreover from snoc n have "t \<notin> fst ` set ys" by simp
        ultimately show ?thesis by blast
      qed
    next
      assume "\<exists>pre post. xs = pre @ (t, p) # post \<and> t \<notin> fst ` set post"
      then obtain pre post where e: "xs = pre @ (t, p) # post" and n: "t \<notin> fst ` set post"
        by blast
      then have "xs @ [x] = pre @ (t, p) # (post @ [x])" by simp
      moreover from n x False have "t \<notin> fst ` set (post @ [x])" by simp
      ultimately show "\<exists>pre post. xs @ [x] = pre @ (t, p) # post \<and> t \<notin> fst ` set post"
        by blast
    qed
    with False x snoc show ?thesis by simp
  qed
qed

lemma unique_links_last:
  "(t, p) \<in> set (unique_links links) \<longleftrightarrow>
     (\<exists>pre post. links = pre @ (t, p) # post \<and> t \<notin> fst ` set post)"
  using map_of_eq_Some_iff[OF distinct_unique_links, of links t p]
  by (simp add: map_of_unique_links map_of_rev_last)

lemma lines_loop_TermLine:
  "TermLine t links \<in> set (lines_loop index terms cur) \<Longrightarrow>
   t \<in> set terms \<and> links = unique_links (index_get index t)"
  by (induction terms arbitrary: cur) (auto split: if_splits)

lemma index_lines_TermLine:
  "TermLine t links \<in> set (index_lines index) \<Longrightarrow>
   t \<in> fst ` set index \<and> links = unique_links (index_get index t)"
  using lines_loop_TermLine[of t links index "sort_key py_lower (map fst index)" "[]"]
  by (simp add: index_lines_def)

lemma lines_loop_has_term:
  "t \<in> set terms \<Longrightarrow> TermLine t (unique_links (index_get index t)) \<in> set (lines_loop index terms cur)"
  by (induction terms arbitrary: cur) auto

section \<open>The walk and the files of the tree\<close>

text \<open>
  The walk yields the files of the tree that lie below no ignored directory, under the
  path built from the names leading to them.
\<close>

lemma walk_all_files:
  "walk_items (os_walk root es) =
     map (\<lambda>(dirs, file, content). (foldl path_join root dirs, file, content))
       (filter (\<lambda>(dirs, file, content). \<forall>d \<in> set dirs. d \<notin> set IGNORE_DIRS) (all_files es))"
  "walk_items (os_walk_subdirs root es) =
     map (\<lambda>(dirs, file, content). (foldl path_join root dirs, file, content))
       (filter (\<lambda>(dirs, file, content). \<forall>d \<in> set dirs. d \<notin> set IGNORE_DIRS) (all_files_sub es))"
proof (induction root es and root es rule: os_walk_os_walk_subdirs.induct)
  case (1 dirpath es)
  have f: "map (\<lambda>(file, content). (dirpath, file, content)) (files_in es)
         = map (\<lambda>(dirs, file, content). (foldl path_join dirpath dirs, file, content))
             (filter (\<lambda>(dirs, file, content). \<forall>d \<in> set dirs. d \<notin> set IGNORE_DIRS)
                (map (\<lambda>(file, content). ([], file, content)) (files_in es)))"
    by (induction es rule: files_in.induct) auto
  show ?case using 1 f by (simp add: walk_items_def)
next
  case (2 dirpath)
  show ?case by (simp add: walk_items_def)
next
  case (3 dirpath name body es)
  then show ?case by (simp add: walk_items_def)
next
  case (4 dirpath name sub es)
  let ?ok = "\<lambda>x :: string list \<times> string \<times> string. \<forall>d \<in> set (fst x). d \<notin> set IGNORE_DIRS"
  let ?push = "\<lambda>x :: string list \<times> string \<times> string. (name # fst x, snd x)"
  show ?case
  proof (cases "name \<in> set IGNORE_DIRS")
    case True
    have "filter ?ok (map ?push (all_files sub)) = []"
      using True by (auto simp: filter_empty_conv)
    with True 4(2) show ?thesis
      by (simp add: walk_items_def case_prod_unfold del: os_walk.simps all_files.simps)
  next
    case False
    have "filter ?ok (map ?push (all_files sub)) = map ?push (filter ?ok (all_files sub))"
      using False by (simp add: filter_map comp_def)
    with False 4(1)[OF False] 4(2) show ?thesis
      by (simp add: walk_items_def case_prod_unfold comp_def del: os_walk.simps all_files.simps)
  qed
qed

lemma scanned_files_walk_items:
  "scanned_files book =
     filter (\<lambda>x. passes_filter (fst (snd x))) (walk_items (os_walk BOOK_DIR book))"
proof -
  have "concat (map (\<lambda>(root, files).
                    map (\<lambda>(file, content). (root, file, content))
                        (filter (\<lambda>(file, content). passes_filter file) files)) w)
        = filter (\<lambda>x. passes_filter (fst (snd x))) (walk_items w)" for w
    by (induction w) (auto simp: walk_items_def filter_map comp_def case_prod_unfold)
  then show ?thesis unfolding scanned_files_def .
qed

lemma scanned_files_all_files:
  "scanned_files book = map place (filter (\<lambda>x. \<not> excluded x) (all_files book))"
proof -
  have p: "(\<lambda>(dirs, file, content). (foldl path_join BOOK_DIR dirs, file, content)) = place"
    by (simp add: place_def dir_path_def fun_eq_iff)
  have "scanned_files book
        = filter (\<lambda>x. passes_filter (fst (snd x)))
            (map place (filter (\<lambda>(dirs, file, content). \<forall>d \<in> set dirs. d \<notin> set IGNORE_DIRS)
                          (all_files book)))"
    unfolding scanned_files_walk_items walk_all_files(1) p ..
  also have "\<dots> = map place (filter (\<lambda>x. \<not> excluded x) (all_files book))"
    by (simp add: filter_map comp_def place_def excluded_def passes_filter_def
          case_prod_unfold conj_commute del: all_files.simps cong: filter_cong)
  finally show ?thesis .
qed

section \<open>Case mappings and the order of the page\<close>

text \<open>
  Upper and lower case cancel each other on letters and leave every other character
  alone; hence two letters of sections that agree up to case are equal. The section
  headers of the loop increase strictly when the terms are sorted.
\<close>

lemma upper_char_other: "c \<notin> set ascii_lower \<Longrightarrow> upper_char c = c"
proof -
  assume "c \<notin> set ascii_lower"
  moreover have "length ascii_lower = length ascii_upper"
    by (simp add: ascii_lower_def ascii_upper_def)
  ultimately have "map_of (zip ascii_lower ascii_upper) c = None"
    by (simp add: map_of_zip_is_None)
  then show ?thesis by (simp add: upper_char_def)
qed

lemma lower_char_other: "c \<notin> set ascii_upper \<Longrightarrow> lower_char c = c"
proof -
  assume "c \<notin> set ascii_upper"
  moreover have "length ascii_upper = length ascii_lower"
    by (simp add: ascii_lower_def ascii_upper_def)
  ultimately have "map_of (zip ascii_upper ascii_lower) c = None"
    by (simp add: map_of_zip_is_None)
  then show ?thesis by (simp add: lower_char_def)
qed

lemma upper_char_letter:
  "c \<in> set ascii_lower \<Longrightarrow> lower_char (upper_char c) = c \<and> lower_char c = c"
  by (auto simp: lower_char_def upper_char_def ascii_upper_def ascii_lower_def)

lemma lower_char_letter:
  "c \<in> set ascii_upper \<Longrightarrow> upper_char (lower_char c) = c \<and> upper_char c = c"
  by (auto simp: lower_char_def upper_char_def ascii_upper_def ascii_lower_def)

lemma lower_upper: "lower_char (upper_char c) = lower_char c"
  by (cases "c \<in> set ascii_lower") (simp_all add: upper_char_letter upper_char_other)

lemma upper_lower: "upper_char (lower_char c) = upper_char c"
  by (cases "c \<in> set ascii_upper") (simp_all add: lower_char_letter lower_char_other)

lemma upper_lower_upper: "upper_char (lower_char (upper_char c)) = upper_char c"
  by (simp add: lower_upper upper_lower)

lemma lower_letter_of: "py_lower (letter_of t) = take 1 (py_lower t)"
  by (simp add: letter_of_def py_lower_def py_upper_def take_map lower_upper)

lemma letter_of_lower_inj:
  assumes "py_lower (letter_of a) = py_lower (letter_of b)"
  shows "letter_of a = letter_of b"
proof -
  have "py_upper (py_lower (letter_of x)) = letter_of x" for x
    by (simp add: letter_of_def py_lower_def py_upper_def upper_lower_upper)
  with assms show ?thesis by metis
qed

lemma take1_mono: "(xs :: string) \<le> ys \<Longrightarrow> take 1 xs \<le> take 1 ys"
  by (cases xs; cases ys) auto

lemma line_terms_lines_loop: "line_terms (lines_loop index terms cur) = terms"
  by (induction terms arbitrary: cur) auto

lemma hd_lines_loop:
  "lines_loop index terms cur = x # rest \<Longrightarrow> letter_of t = cur \<Longrightarrow> follows (TermLine t l) x"
  by (cases terms) (auto split: if_splits)

lemma successively_lines_loop: "successively follows (lines_loop index terms cur)"
proof (induction terms arbitrary: cur)
  case Nil
  show ?case by simp
next
  case (Cons t ts)
  let ?rest = "lines_loop index ts (letter_of t)"
  let ?line = "TermLine t (unique_links (index_get index t))"
  have a: "successively follows (?line # ?rest)"
  proof (cases ?rest)
    case Nil
    then show ?thesis by simp
  next
    case (Cons x xs)
    from hd_lines_loop[OF Cons refl] Cons.IH[of "letter_of t"] show ?thesis
      unfolding Cons by simp
  qed
  show ?case
  proof (cases "letter_of t = cur")
    case True
    with a show ?thesis by simp
  next
    case False
    with a show ?thesis by simp
  qed
qed

lemma sections_lines_loop:
  assumes "sorted (map py_lower terms)"
    and "\<forall>t \<in> set terms. py_lower cur \<le> py_lower (letter_of t)"
    and "\<exists>t0. cur = letter_of t0"
  shows "sorted_wrt (<) (map py_lower (section_letters (lines_loop index terms cur))) \<and>
         (\<forall>s \<in> set (section_letters (lines_loop index terms cur)). py_lower cur < py_lower s)"
  using assms
proof (induction terms arbitrary: cur)
  case Nil
  show ?case by simp
next
  case (Cons t ts)
  let ?l = "letter_of t"
  have ge: "\<forall>u \<in> set ts. py_lower ?l \<le> py_lower (letter_of u)"
  proof
    fix u assume "u \<in> set ts"
    with Cons.prems(1) have "py_lower t \<le> py_lower u" by auto
    then show "py_lower ?l \<le> py_lower (letter_of u)"
      unfolding lower_letter_of by (rule take1_mono)
  qed
  from Cons.prems(1) have "sorted (map py_lower ts)" by simp
  from Cons.IH[OF this ge] have
    IH1: "sorted_wrt (<) (map py_lower (section_letters (lines_loop index ts ?l)))" and
    IH2: "\<forall>s \<in> set (section_letters (lines_loop index ts ?l)). py_lower ?l < py_lower s"
    by blast+
  show ?case
  proof (cases "?l = cur")
    case True
    with IH1 IH2 show ?thesis by simp
  next
    case False
    from Cons.prems(2) have le: "py_lower cur \<le> py_lower ?l" by simp
    from Cons.prems(3) obtain t0 where "cur = letter_of t0" by blast
    with False letter_of_lower_inj[of t0 t] have "py_lower cur \<noteq> py_lower ?l" by auto
    with le have lt: "py_lower cur < py_lower ?l" by simp
    with IH2 have "\<forall>s \<in> set (section_letters (lines_loop index ts ?l)). py_lower cur < py_lower s"
      by (meson less_trans)
    with False IH1 IH2 lt show ?thesis by simp
  qed
qed

lemma hd_index_lines:
  "[] \<notin> set terms \<Longrightarrow> lines_loop index terms [] \<noteq> [] \<Longrightarrow>
   is_section (hd (lines_loop index terms []))"
  by (cases terms) (auto simp: is_section_def letter_of_def py_upper_def)

lemma lines_loop_nonempty: "terms \<noteq> [] \<Longrightarrow> lines_loop index terms cur \<noteq> []"
  by (cases terms) auto

lemma last_lines_loop:
  "terms \<noteq> [] \<Longrightarrow> \<not> is_section (last (lines_loop index terms cur))"
proof (induction terms arbitrary: cur)
  case Nil
  then show ?case by simp
next
  case (Cons t ts)
  show ?case
  proof (cases ts)
    case Nil
    then show ?thesis by (simp add: is_section_def)
  next
    case (Cons u us)
    then have ne: "ts \<noteq> []" by simp
    from lines_loop_nonempty[OF ne] Cons.IH[OF ne]
    show ?thesis by simp
  qed
qed

section \<open>Occurrences inside a text, keys of the index, sections of the page\<close>

text \<open>
  A word between two non-word characters is a whole-word occurrence wherever it stands.
  The keys of a scanned index are vocabulary terms, so the page is always generated.
  Every term line stands in the section of its letter.
\<close>

lemma whole_word_between:
  assumes x: "\<not> is_word_char x" and y: "\<not> is_word_char y"
    and w: "w \<noteq> []" "is_word_char (hd w)" "is_word_char (last w)"
    and eq: "py_lower w = py_lower t"
  shows "term_hit t (a @ x # w @ y # b)"
proof -
  let ?c = "a @ x # w @ y # b"
  let ?i = "Suc (length a)"
  from eq have len: "length t = length w"
    by (metis length_map py_lower_def)
  have d: "drop ?i ?c = w @ y # b" by simp
  have t: "py_lower (take (length t) (drop ?i ?c)) = py_lower t"
    unfolding d len using eq by simp
  have n0: "?c ! (?i - 1) = x" by (simp add: nth_append)
  have n1: "?c ! ?i = hd w" using w(1) by (cases w) (simp_all add: nth_append)
  have c': "?c = (a @ [x] @ w) @ y # b" by simp
  have n3: "?c ! (?i + length w) = y"
    unfolding c' by (simp add: nth_append)
  have n2: "?c ! (?i + length w - 1) = last w"
  proof -
    have "(a @ [x] @ w) ! (length a + length w) = last (a @ [x] @ w)"
      using w(1) by (simp add: last_conv_nth del: last_append)
    then show ?thesis unfolding c' using w(1) by (simp add: nth_append)
  qed
  have lc: "length ?c = length a + length w + length b + 2" by simp
  have i0: "0 < ?i" and il: "?i < length ?c"
    and j0: "0 < ?i + length w" and jl: "?i + length w < length ?c"
    unfolding lc by linarith+
  have b1: "boundary_at ?c ?i"
    unfolding boundary_at_def n0 n1 using i0 il x w(2) by blast
  have b2: "boundary_at ?c (?i + length w)"
    unfolding boundary_at_def n2 n3 using j0 jl y w(3) by blast
  have "whole_word_at t ?c ?i"
    unfolding whole_word_at_def using t b1 b2 len by simp
  moreover have "?i \<in> set [0 ..< Suc (length ?c)]"
  proof -
    from il have "?i < Suc (length ?c)" by linarith
    then show ?thesis unfolding set_upt atLeastLessThan_iff using le0 by blast
  qed
  ultimately have "contains_whole_word t ?c"
    unfolding contains_whole_word_def by blast
  then show ?thesis by (simp add: term_hit_iff)
qed

lemma scan_keys_fold_terms:
  "fst ` set (fold (\<lambda>term index. if P term then index_append index term x else index) ts index)
   \<subseteq> fst ` set index \<union> set ts"
proof (induction ts arbitrary: index)
  case Nil
  show ?case by simp
next
  case (Cons a ts)
  define step where "step = (if P a then index_append index a x else index)"
  have e: "fold (\<lambda>term index. if P term then index_append index term x else index) (a # ts) index
           = fold (\<lambda>term index. if P term then index_append index term x else index) ts step"
    by (simp add: step_def)
  have "fst ` set step \<subseteq> fst ` set index \<union> {a}"
    by (simp add: step_def index_append_def dom_map_default subset_insertI2)
  with Cons[of step] show ?case unfolding e by auto
qed

lemma scan_keys_scan_file:
  "fst ` set (scan_file root f index) \<subseteq> fst ` set index \<union> set EXPLICIT_TERMS"
  using scan_keys_fold_terms[of _ _ EXPLICIT_TERMS index]
  by (simp add: scan_file_def scan_terms_def Let_def)

lemma scan_keys_fold_files:
  "fst ` set (fold (scan_file root) files index) \<subseteq> fst ` set index \<union> set EXPLICIT_TERMS"
proof (induction files arbitrary: index)
  case Nil
  show ?case by simp
next
  case (Cons f files)
  from Cons[of "scan_file root f index"] scan_keys_scan_file[of root f index]
  show ?case by auto
qed

lemma scan_keys_fold_walk:
  "fst ` set (fold (\<lambda>(root, files) index. fold (scan_file root) files index) w index)
   \<subseteq> fst ` set index \<union> set EXPLICIT_TERMS"
proof (induction w arbitrary: index)
  case Nil
  show ?case by simp
next
  case (Cons rf w)
  obtain r fs where rf: "rf = (r, fs)" by (cases rf)
  from Cons[of "fold (scan_file r) fs index"] scan_keys_fold_files[of r fs index]
  show ?case unfolding rf by auto
qed

lemma scan_files_keys: "fst ` set (scan_files book) \<subseteq> set EXPLICIT_TERMS"
  using scan_keys_fold_walk[of "os_walk BOOK_DIR book" "[]"]
  unfolding scan_files_def by simp

lemma empty_not_term: "[] \<notin> set EXPLICIT_TERMS"
  by (simp add: EXPLICIT_TERMS_def)

lemma generate_scan_files:
  "generate_index_md (scan_files book) = Inr (render_page (index_lines (scan_files book)))"
  using scan_files_keys[of book] empty_not_term
  by (auto simp: generate_index_md_lines)

lemma index_get_key: "index_get index t \<noteq> [] \<Longrightarrow> t \<in> fst ` set index"
  by (auto simp: index_get_def split: option.splits dest: map_of_SomeD intro: rev_image_eqI)

lemma lines_loop_section:
  "TermLine t l \<in> set (lines_loop index terms cur) \<Longrightarrow>
   in_section (letter_of t) (TermLine t l) (lines_loop index terms cur) \<or>
   (letter_of t = cur \<and>
    (\<exists>b c. lines_loop index terms cur = b @ TermLine t l # c \<and> (\<forall>y \<in> set b. \<not> is_section y)))"
proof (induction terms arbitrary: cur)
  case Nil
  then show ?case by simp
next
  case (Cons u us)
  let ?lu = "unique_links (index_get index u)"
  let ?rest = "lines_loop index us (letter_of u)"
  let ?pre = "if letter_of u \<noteq> cur then [Section (letter_of u)] else []"
  have ls: "lines_loop index (u # us) cur = ?pre @ TermLine u ?lu # ?rest" by simp
  from Cons.prems have "TermLine t l = TermLine u ?lu \<or> TermLine t l \<in> set ?rest"
    by (auto split: if_splits)
  then show ?case
  proof
    assume h: "TermLine t l = TermLine u ?lu"
    show ?thesis
    proof (cases "letter_of u = cur")
      case True
      have "lines_loop index (u # us) cur = [] @ TermLine t l # ?rest"
        using True h by simp
      with True h show ?thesis by (metis empty_iff list.set(1) md_line.inject(2))
    next
      case False
      have "lines_loop index (u # us) cur = [] @ Section (letter_of t) # [] @ TermLine t l # ?rest"
        using False h by simp
      then have "in_section (letter_of t) (TermLine t l) (lines_loop index (u # us) cur)"
        unfolding in_section_def by (metis empty_iff list.set(1))
      then show ?thesis ..
    qed
  next
    assume "TermLine t l \<in> set ?rest"
    from Cons.IH[OF this] show ?thesis
    proof
      assume "in_section (letter_of t) (TermLine t l) ?rest"
      then obtain a b c where r: "?rest = a @ Section (letter_of t) # b @ TermLine t l # c"
        and nb: "\<forall>y \<in> set b. \<not> is_section y"
        unfolding in_section_def by blast
      have "lines_loop index (u # us) cur
            = (?pre @ TermLine u ?lu # a) @ Section (letter_of t) # b @ TermLine t l # c"
        unfolding ls r by simp
      with nb have "in_section (letter_of t) (TermLine t l) (lines_loop index (u # us) cur)"
        unfolding in_section_def by blast
      then show ?thesis ..
    next
      assume "letter_of t = letter_of u \<and>
        (\<exists>b c. ?rest = b @ TermLine t l # c \<and> (\<forall>y \<in> set b. \<not> is_section y))"
      then obtain b c where lt: "letter_of t = letter_of u"
        and r: "?rest = b @ TermLine t l # c" and nb: "\<forall>y \<in> set b. \<not> is_section y"
        by blast
      have nb': "\<forall>y \<in> set (TermLine u ?lu # b). \<not> is_section y"
        using nb by (simp add: is_section_def)
      show ?thesis
      proof (cases "letter_of u = cur")
        case True
        have "lines_loop index (u # us) cur = (TermLine u ?lu # b) @ TermLine t l # c"
          unfolding ls r using True by simp
        with nb' lt True show ?thesis by blast
      next
        case False
        have "lines_loop index (u # us) cur
              = [] @ Section (letter_of t) # (TermLine u ?lu # b) @ TermLine t l # c"
          unfolding ls r using False lt by simp
        with nb' have "in_section (letter_of t) (TermLine t l) (lines_loop index (u # us) cur)"
          unfolding in_section_def by blast
        then show ?thesis ..
      qed
    qed
  qed
qed

lemma index_lines_section:
  assumes "t \<in> fst ` set index" and "t \<noteq> []"
  shows "in_section (letter_of t) (TermLine t (unique_links (index_get index t))) (index_lines index)"
proof -
  let ?terms = "sort_key py_lower (map fst index)"
  from assms(1) have "t \<in> set ?terms" by simp
  from lines_loop_has_term[OF this, of index "[]"]
  have "TermLine t (unique_links (index_get index t)) \<in> set (lines_loop index ?terms [])" .
  from lines_loop_section[OF this] assms(2) show ?thesis
    unfolding index_lines_def
    by (cases t) (auto simp: letter_of_def py_upper_def)
qed

section \<open>Link paths of validly named files\<close>

text \<open>
  For names as a directory listing returns them, the link path of a file is the list
  of the names leading to it and its own name, joined by slashes.
\<close>

lemma path_join_valid:
  assumes "a \<noteq> []" and "last a \<noteq> CHR ''/''" and "valid_name b"
  shows "path_join a b = a @ ''/'' @ b"
proof -
  from assms(3) obtain c cs where b: "b = c # cs" and c: "c \<noteq> CHR ''/''"
    by (cases b) (auto simp: valid_name_def)
  have s: "\<not> startswith b ''/''" using b c by (simp add: startswith_def)
  have "drop (length a - 1) a = [last a]"
    using assms(1) by (metis One_nat_def append_butlast_last_id append_eq_conv_conj length_butlast)
  with assms(2) have e: "\<not> endswith a ''/''" by (simp add: endswith_def)
  from s e assms(1) show ?thesis by (simp add: path_join_def)
qed

lemma foldl_path_join:
  assumes "r \<noteq> []" and "last r \<noteq> CHR ''/''" and "\<forall>n \<in> set names. valid_name n"
  shows "foldl path_join r names = r @ concat (map (\<lambda>n. ''/'' @ n) names)"
  using assms
proof (induction names arbitrary: r)
  case Nil
  show ?case by simp
next
  case (Cons n ns)
  from Cons.prems have v: "valid_name n" by simp
  then have nn: "n \<noteq> []" and ns: "CHR ''/'' \<notin> set n"
    by (auto simp: valid_name_def)
  from nn ns have ln: "last n \<noteq> CHR ''/''"
    using last_in_set by metis
  have j: "path_join r n = r @ ''/'' @ n"
    using path_join_valid[OF Cons.prems(1,2) v] .
  have "foldl path_join (r @ ''/'' @ n) ns = (r @ ''/'' @ n) @ concat (map (\<lambda>n. ''/'' @ n) ns)"
    using Cons.prems(3) nn ln by (intro Cons.IH) auto
  then show ?case by (simp add: j)
qed

lemma path_parts_acc_word:
  "CHR ''/'' \<notin> set w \<Longrightarrow> path_parts_acc cur (w @ rest) = path_parts_acc (cur @ w) rest"
  by (induction w arbitrary: cur) auto

lemma path_parts_acc_names:
  "\<forall>n \<in> set names. valid_name n \<Longrightarrow>
   path_parts_acc cur (concat (map (\<lambda>n. ''/'' @ n) names))
   = (if cur = [] then [] else [cur]) @ names"
proof (induction names arbitrary: cur)
  case Nil
  show ?case by simp
next
  case (Cons n ns)
  then have v: "CHR ''/'' \<notin> set n" "n \<noteq> []" and r: "\<forall>n \<in> set ns. valid_name n"
    by (auto simp: valid_name_def)
  have "path_parts_acc [] (n @ concat (map (\<lambda>n. ''/'' @ n) ns)) = n # ns"
    using path_parts_acc_word[OF v(1), of "[]"] Cons.IH[OF r, of n] v(2) by simp
  then show ?case by simp
qed

lemma relpath_in_book:
  assumes "\<forall>n \<in> set dirs. valid_name n" and "valid_name file"
  shows "relpath (path_join (dir_path dirs) file) BOOK_DIR = join ''/'' (dirs @ [file])"
proof -
  let ?names = "dirs @ [file]"
  have v: "\<forall>n \<in> set ?names. valid_name n" using assms by simp
  have b: "BOOK_DIR \<noteq> []" "last BOOK_DIR \<noteq> CHR ''/''" "CHR ''/'' \<notin> set BOOK_DIR"
    by (simp_all add: BOOK_DIR_def)
  have "path_join (dir_path dirs) file = foldl path_join BOOK_DIR ?names"
    by (simp add: dir_path_def)
  also have "\<dots> = BOOK_DIR @ concat (map (\<lambda>n. ''/'' @ n) ?names)"
    by (rule foldl_path_join[OF b(1,2) v])
  finally have p: "path_join (dir_path dirs) file = BOOK_DIR @ concat (map (\<lambda>n. ''/'' @ n) ?names)" .
  have "path_parts_acc [] (BOOK_DIR @ concat (map (\<lambda>n. ''/'' @ n) ?names))
        = path_parts_acc ([] @ BOOK_DIR) (concat (map (\<lambda>n. ''/'' @ n) ?names))"
    by (rule path_parts_acc_word[OF b(3)])
  also have "\<dots> = (if BOOK_DIR = [] then [] else [BOOK_DIR]) @ ?names"
    unfolding append_Nil by (rule path_parts_acc_names[OF v])
  also have "\<dots> = BOOK_DIR # ?names" using b(1) by simp
  finally have pp: "path_parts (path_join (dir_path dirs) file) = BOOK_DIR # ?names"
    unfolding p path_parts_def .
  have pb: "path_parts BOOK_DIR = [BOOK_DIR]"
    using path_parts_acc_word[OF b(3), of "[]" "[]"] b(1) by (simp add: path_parts_def)
  show ?thesis
    by (simp add: relpath_def pp pb Let_def)
qed

section \<open>Properties of the index generator\<close>

text \<open>
  Claim C1. Let the content root hold one markdown file that is not excluded, whose
  first level-one heading line is \<open># Chapter One\<close> and whose text contains
  \<open>uses an Octree and BCC lattice\<close>. Then the run writes the index file, and on the
  page the line of \<open>BCC\<close> stands in the section \<open>B\<close> and the line of \<open>Octree\<close> in
  the section \<open>O\<close>; each of the two lines is one link whose text is
  \<open>Chapter One\<close> and whose target is the file.
\<close>

theorem chapter_one_example:
  assumes f: "passes_filter name"
    and h: "first_heading content = Some ''# Chapter One\<newline>'' \<or>
            first_heading content = Some ''# Chapter One''"
    and c: "content = pre @ ''uses an Octree and BCC lattice'' @ post"
    and l: "link = relpath (path_join BOOK_DIR name) BOOK_DIR"
  shows "\<exists>run. index_main [File name content] = Inr run \<and>
           written_path run = ''book/back_matter/index.md'' \<and>
           written_text run = render_page (index_lines (scan_files [File name content])) \<and>
           in_section ''B'' (TermLine ''BCC'' [(''Chapter One'', link)])
             (index_lines (scan_files [File name content])) \<and>
           in_section ''O'' (TermLine ''Octree'' [(''Chapter One'', link)])
             (index_lines (scan_files [File name content])) \<and>
           render_line (TermLine ''BCC'' [(''Chapter One'', link)])
             = ''- **BCC**: [Chapter One](../'' @ link @ '')\<newline>'' \<and>
           render_line (TermLine ''Octree'' [(''Chapter One'', link)])
             = ''- **Octree**: [Chapter One](../'' @ link @ '')\<newline>''"
proof -
  let ?book = "[File name content]"
  let ?I = "scan_files ?book"
  have s1: "strip_ws (strip_chars ''# '' ''# Chapter One\<newline>'') = ''Chapter One''" by code_simp
  have s2: "strip_ws (strip_chars ''# '' ''# Chapter One'') = ''Chapter One''" by code_simp
  from h s1 s2 have title: "get_title (path_join BOOK_DIR name) content = ''Chapter One''"
    by (auto simp: get_title_def first_heading_def)
  have fl: "file_link (BOOK_DIR, name, content) = (''Chapter One'', link)"
    by (simp add: file_link_def title l)
  have sf: "scanned_files ?book = [(BOOK_DIR, name, content)]"
    using f by (simp add: scanned_files_def)
  have sp: "\<not> is_word_char CHR '' ''" by code_simp
  have w1: "is_word_char (hd ''BCC'')" "is_word_char (last ''BCC'')"
    "is_word_char (hd ''Octree'')" "is_word_char (last ''Octree'')" by code_simp+
  have c1: "content = (pre @ ''uses an Octree and'') @ CHR '' '' # ''BCC'' @ CHR '' '' # (''lattice'' @ post)"
    unfolding c by simp
  have c2: "content = (pre @ ''uses an'') @ CHR '' '' # ''Octree'' @ CHR '' '' # (''and BCC lattice'' @ post)"
    unfolding c by simp
  have hb: "term_hit ''BCC'' content"
    by (subst c1, rule whole_word_between[OF sp sp _ w1(1,2)]) simp_all
  have ho: "term_hit ''Octree'' content"
    by (subst c2, rule whole_word_between[OF sp sp _ w1(3,4)]) simp_all
  have mb: "''BCC'' \<in> set EXPLICIT_TERMS" and mo: "''Octree'' \<in> set EXPLICIT_TERMS"
    by (simp_all add: EXPLICIT_TERMS_def)
  have gb: "index_get ?I ''BCC'' = [(''Chapter One'', link)]"
    unfolding index_get_scan_files sf using mb hb fl by simp
  have go: "index_get ?I ''Octree'' = [(''Chapter One'', link)]"
    unfolding index_get_scan_files sf using mo ho fl by simp
  have u: "unique_links [(''Chapter One'', link)] = [(''Chapter One'', link)]"
    by (simp add: unique_links_def)
  have kb: "''BCC'' \<in> fst ` set ?I" by (rule index_get_key) (simp add: gb)
  have ko: "''Octree'' \<in> fst ` set ?I" by (rule index_get_key) (simp add: go)
  have lb: "letter_of ''BCC'' = ''B''" and lo: "letter_of ''Octree'' = ''O''" by code_simp+
  have ib: "in_section ''B'' (TermLine ''BCC'' [(''Chapter One'', link)]) (index_lines ?I)"
    using index_lines_section[OF kb] unfolding gb u lb by simp
  have io: "in_section ''O'' (TermLine ''Octree'' [(''Chapter One'', link)]) (index_lines ?I)"
    using index_lines_section[OF ko] unfolding go u lo by simp
  have p: "INDEX_FILE = ''book/back_matter/index.md''" by code_simp
  have m: "\<exists>run. index_main ?book = Inr run \<and> written_path run = ''book/back_matter/index.md'' \<and>
           written_text run = render_page (index_lines ?I)"
    by (simp add: index_main_def Let_def generate_scan_files p del: decimal.simps)
  have r: "render_line (TermLine ''BCC'' [(''Chapter One'', link)])
             = ''- **BCC**: [Chapter One](../'' @ link @ '')\<newline>''"
      "render_line (TermLine ''Octree'' [(''Chapter One'', link)])
             = ''- **Octree**: [Chapter One](../'' @ link @ '')\<newline>''"
    by (simp_all add: link_md_def)
  from m ib io r show ?thesis by blast
qed

theorem chapter_one_example_witness:
  "passes_filter ''chapter1.md'' \<and>
   first_heading ''# Chapter One\<newline>\<newline>The grid uses an Octree and BCC lattice.\<newline>''
     = Some ''# Chapter One\<newline>'' \<and>
   relpath (path_join BOOK_DIR ''chapter1.md'') BOOK_DIR = ''chapter1.md'' \<and>
   (\<exists>run. index_main [File ''chapter1.md''
              ''# Chapter One\<newline>\<newline>The grid uses an Octree and BCC lattice.\<newline>''] = Inr run \<and>
      written_path run = ''book/back_matter/index.md'' \<and>
      written_text run = render_page (index_lines (scan_files [File ''chapter1.md''
              ''# Chapter One\<newline>\<newline>The grid uses an Octree and BCC lattice.\<newline>''])) \<and>
      in_section ''B'' (TermLine ''BCC'' [(''Chapter One'', ''chapter1.md'')])
        (index_lines (scan_files [File ''chapter1.md''
              ''# Chapter One\<newline>\<newline>The grid uses an Octree and BCC lattice.\<newline>''])) \<and>
      in_section ''O'' (TermLine ''Octree'' [(''Chapter One'', ''chapter1.md'')])
        (index_lines (scan_files [File ''chapter1.md''
              ''# Chapter One\<newline>\<newline>The grid uses an Octree and BCC lattice.\<newline>''])))"
proof -
  let ?c = "''# Chapter One\<newline>\<newline>The grid uses an Octree and BCC lattice.\<newline>''"
  have f: "passes_filter ''chapter1.md''" by code_simp
  have h: "first_heading ?c = Some ''# Chapter One\<newline>''" by code_simp
  have c: "?c = ''# Chapter One\<newline>\<newline>The grid '' @ ''uses an Octree and BCC lattice'' @ ''.\<newline>''"
    by simp
  have l: "''chapter1.md'' = relpath (path_join BOOK_DIR ''chapter1.md'') BOOK_DIR" by code_simp
  from chapter_one_example[OF f disjI1[OF h] c l] f h l show ?thesis by metis
qed



text \<open>
  Without a heading line the title is the base name of the path. With one, the title is
  what \<open>strip\<close> leaves of the line; for a heading whose text neither begins nor ends
  with a hash or a space that is the text after the marker.
\<close>

lemma get_title_no_heading:
  "first_heading text = None \<Longrightarrow> get_title path text = basename path"
  by (simp add: get_title_def first_heading_def)

lemma get_title_heading:
  "first_heading text = Some line \<Longrightarrow> get_title path text = strip_ws (strip_chars ''# '' line)"
  by (simp add: get_title_def first_heading_def)

text \<open>
  Claim C4. The title is taken from the first line that starts with \<open># \<close>, and the
  base name is the fallback; but \<open>line.strip("# ")\<close> removes every hash and space at
  both ends of the line, not the marker alone. A heading \<open># C#\<close> that ends the file
  without a newline gets the title \<open>C\<close>, while the same heading followed by a newline
  gets \<open>C#\<close>; a heading \<open># #1 Goals\<close> gets the title \<open>1 Goals\<close>. The text after
  the marker is \<open>C#\<close> and \<open>#1 Goals\<close>.
\<close>

theorem get_title_strips_hashes_of_heading_text:
  "get_title ''book/notes.md'' ''intro\<newline># C#'' = ''C'' \<and>
   get_title ''book/notes.md'' ''intro\<newline># C#\<newline>more'' = ''C#'' \<and>
   get_title ''book/notes.md'' ''# #1 Goals\<newline>'' = ''1 Goals'' \<and>
   strip_ws (drop 2 ''# C#'') = ''C#'' \<and>
   strip_ws (drop 2 ''# #1 Goals\<newline>'') = ''#1 Goals'' \<and>
   get_title ''book/notes.md'' ''no heading here\<newline>'' = ''notes.md''"
  by code_simp

text \<open>
  Claim C5. On the line of a term each title is linked at most once, and the titles
  linked are those recorded for the term: of two files recorded under one term with the
  same title, one link is rendered.
\<close>

theorem titles_once_per_term_line:
  assumes "generate_index_md index = Inr md"
  shows "md = render_page (index_lines index) \<and>
         (\<forall>term \<in> fst ` set index. \<exists>links. TermLine term links \<in> set (index_lines index)) \<and>
         (\<forall>term links. TermLine term links \<in> set (index_lines index) \<longrightarrow>
            distinct (map fst links) \<and>
            fst ` set links = fst ` set (index_get index term))"
proof -
  from assms have md: "md = render_page (index_lines index)"
    by (simp add: generate_index_md_lines split: if_splits)
  have has: "\<exists>links. TermLine term links \<in> set (index_lines index)"
    if "term \<in> fst ` set index" for "term"
    using lines_loop_has_term[of "term" "sort_key py_lower (map fst index)" index "[]"] that
    unfolding index_lines_def by auto
  have once: "distinct (map fst links) \<and> fst ` set links = fst ` set (index_get index term)"
    if "TermLine term links \<in> set (index_lines index)" for "term" links
    using index_lines_TermLine[OF that]
    by (simp add: distinct_unique_links titles_unique_links)
  from md has once show ?thesis by blast
qed

theorem titles_once_per_term_line_witness:
  "generate_index_md [(''BCC'', [(''Intro'', ''a.md''), (''Intro'', ''p/b.md'')])]
     = Inr ''# Index\<newline>\<newline>\<newline>## B\<newline>\<newline>- **BCC**: [Intro](../p/b.md)\<newline>'' \<and>
   index_lines [(''BCC'', [(''Intro'', ''a.md''), (''Intro'', ''p/b.md'')])]
     = [Section ''B'', TermLine ''BCC'' [(''Intro'', ''p/b.md'')]] \<and>
   distinct (map fst [(''Intro'', ''p/b.md'')]) \<and>
   fst ` set [(''Intro'', ''p/b.md'')]
     = fst ` set (index_get [(''BCC'', [(''Intro'', ''a.md''), (''Intro'', ''p/b.md'')])] ''BCC'')"
proof -
  let ?I = "[(''BCC'', [(''Intro'', ''a.md''), (''Intro'', ''p/b.md'')])]"
  have g: "generate_index_md ?I
     = Inr ''# Index\<newline>\<newline>\<newline>## B\<newline>\<newline>- **BCC**: [Intro](../p/b.md)\<newline>''"
    by code_simp
  have l: "index_lines ?I = [Section ''B'', TermLine ''BCC'' [(''Intro'', ''p/b.md'')]]"
    by code_simp
  then have m: "TermLine ''BCC'' [(''Intro'', ''p/b.md'')] \<in> set (index_lines ?I)"
    by simp
  from titles_once_per_term_line[OF g] m
  have "distinct (map fst [(''Intro'', ''p/b.md'')]) \<and>
        fst ` set [(''Intro'', ''p/b.md'')] = fst ` set (index_get ?I ''BCC'')"
    by blast
  with g l show ?thesis by blast
qed

text \<open>
  Claim C6. The lines of the page are in the case-insensitive order of their terms,
  strictly so when no two keys of the index agree up to case; the
  section headers are in strictly increasing case-insensitive order, so each letter has
  one header; and a header stands directly before a term line of its letter, a term
  line directly after its header or after a term line of the same letter. The page
  begins with a header and ends with a term line, unless it has no lines.
\<close>

theorem page_sorted_case_insensitively:
  assumes "generate_index_md index = Inr md"
  shows "md = render_page (index_lines index) \<and>
         line_terms (index_lines index) = sort_key py_lower (map fst index) \<and>
         sorted (map py_lower (line_terms (index_lines index))) \<and>
         (distinct (map py_lower (map fst index)) \<longrightarrow>
            sorted_wrt (<) (map py_lower (line_terms (index_lines index)))) \<and>
         sorted_wrt (<) (map py_lower (section_letters (index_lines index))) \<and>
         successively follows (index_lines index) \<and>
         (index_lines index \<noteq> [] \<longrightarrow> is_section (hd (index_lines index))) \<and>
         (index_lines index \<noteq> [] \<longrightarrow> \<not> is_section (last (index_lines index)))"
proof -
  let ?terms = "sort_key py_lower (map fst index)"
  from assms have md: "md = render_page (index_lines index)"
    and ne: "[] \<notin> set ?terms"
    by (simp_all add: generate_index_md_lines split: if_splits)
  have t: "line_terms (index_lines index) = ?terms"
    by (simp add: index_lines_def line_terms_lines_loop)
  have s: "sorted (map py_lower ?terms)" by (rule sorted_sort_key)
  have strict: "sorted_wrt (<) (map py_lower ?terms)"
    if "distinct (map py_lower (map fst index))"
  proof -
    have "distinct (map py_lower (sort_key py_lower ks)) = distinct (map py_lower ks)"
      for ks :: "string list"
      by (simp add: distinct_map)
    with that have "distinct (map py_lower ?terms)" by blast
    with s show ?thesis by (simp add: strict_sorted_iff)
  qed
  have "[] = letter_of []" by (simp add: letter_of_def py_upper_def)
  then have "\<exists>t0. [] = letter_of t0" by blast
  with sections_lines_loop[OF s, of "[]" index]
  have sec: "sorted_wrt (<) (map py_lower (section_letters (index_lines index)))"
    by (simp add: index_lines_def py_lower_def)
  have suc: "successively follows (index_lines index)"
    unfolding index_lines_def by (rule successively_lines_loop)
  have hd: "index_lines index \<noteq> [] \<longrightarrow> is_section (hd (index_lines index))"
    unfolding index_lines_def using hd_index_lines[OF ne] by blast
  have lst: "index_lines index \<noteq> [] \<longrightarrow> \<not> is_section (last (index_lines index))"
  proof
    assume "index_lines index \<noteq> []"
    then have "?terms \<noteq> []" unfolding index_lines_def by (cases ?terms) auto
    then show "\<not> is_section (last (index_lines index))"
      unfolding index_lines_def by (rule last_lines_loop)
  qed
  from md t s strict sec suc hd lst show ?thesis by simp
qed

theorem page_sorted_case_insensitively_witness:
  "generate_index_md [(''octree'', [(''One'', ''a.md'')]), (''BCC'', [(''One'', ''a.md'')]),
                      (''Arrow'', [(''Two'', ''b.md'')]), (''avx2'', [(''Two'', ''b.md'')]),
                      (''Body'', [(''One'', ''a.md'')])]
     = Inr (render_page
         [Section ''A'', TermLine ''Arrow'' [(''Two'', ''b.md'')], TermLine ''avx2'' [(''Two'', ''b.md'')],
          Section ''B'', TermLine ''BCC'' [(''One'', ''a.md'')], TermLine ''Body'' [(''One'', ''a.md'')],
          Section ''O'', TermLine ''octree'' [(''One'', ''a.md'')]]) \<and>
   line_terms (index_lines [(''octree'', [(''One'', ''a.md'')]), (''BCC'', [(''One'', ''a.md'')]),
                      (''Arrow'', [(''Two'', ''b.md'')]), (''avx2'', [(''Two'', ''b.md'')]),
                      (''Body'', [(''One'', ''a.md'')])])
     = [''Arrow'', ''avx2'', ''BCC'', ''Body'', ''octree''] \<and>
   section_letters (index_lines [(''octree'', [(''One'', ''a.md'')]), (''BCC'', [(''One'', ''a.md'')]),
                      (''Arrow'', [(''Two'', ''b.md'')]), (''avx2'', [(''Two'', ''b.md'')]),
                      (''Body'', [(''One'', ''a.md'')])])
     = [''A'', ''B'', ''O'']"
proof -
  let ?I = "[(''octree'', [(''One'', ''a.md'')]), (''BCC'', [(''One'', ''a.md'')]),
             (''Arrow'', [(''Two'', ''b.md'')]), (''avx2'', [(''Two'', ''b.md'')]),
             (''Body'', [(''One'', ''a.md'')])]"
  let ?L = "[Section ''A'', TermLine ''Arrow'' [(''Two'', ''b.md'')], TermLine ''avx2'' [(''Two'', ''b.md'')],
          Section ''B'', TermLine ''BCC'' [(''One'', ''a.md'')], TermLine ''Body'' [(''One'', ''a.md'')],
          Section ''O'', TermLine ''octree'' [(''One'', ''a.md'')]]"
  have g: "generate_index_md ?I = Inr (render_page ?L)" by code_simp
  have k: "sort_key py_lower (map fst ?I) = [''Arrow'', ''avx2'', ''BCC'', ''Body'', ''octree'']"
    by code_simp
  have l: "index_lines ?I = ?L" by code_simp
  from page_sorted_case_insensitively[OF g] have
    "line_terms (index_lines ?I) = sort_key py_lower (map fst ?I)" by blast
  with g k l show ?thesis by simp
qed

text \<open>
  Claim C7. The files that are scanned are the files of the tree that are not excluded,
  and every pair recorded in the index is the title and link of one of those; the link
  of a file with valid names is its own path below the content root. A file
  below a directory named in \<open>IGNORE_DIRS\<close>, at any depth, a file named in
  \<open>IGNORE_FILES\<close> and a file whose name does not end in \<open>.md\<close> is neither scanned
  nor linked.
\<close>

theorem excluded_files_never_scanned:
  "scanned_files book = map place (filter (\<lambda>x. \<not> excluded x) (all_files book)) \<and>
   (\<forall>t l. l \<in> set (index_get (scan_files book) t) \<longrightarrow>
      (\<exists>x \<in> set (all_files book). \<not> excluded x \<and> l = file_link (place x))) \<and>
   (\<forall>dirs file content.
      (\<forall>n \<in> set dirs. valid_name n) \<longrightarrow> valid_name file \<longrightarrow>
      file_link (place (dirs, file, content))
        = (get_title (path_join (dir_path dirs) file) content, join ''/'' (dirs @ [file])))"
proof -
  have "\<exists>x \<in> set (all_files book). \<not> excluded x \<and> l = file_link (place x)"
    if "l \<in> set (index_get (scan_files book) t)" for t l
  proof -
    from that have "l \<in> file_link ` set (scanned_files book)"
      by (auto simp: index_get_scan_files split: if_splits)
    then show ?thesis unfolding scanned_files_all_files by auto
  qed
  moreover have "file_link (place (dirs, name, content))
        = (get_title (path_join (dir_path dirs) name) content, join ''/'' (dirs @ [name]))"
    if "\<forall>n \<in> set dirs. valid_name n" and "valid_name name" for dirs name content
    using relpath_in_book[OF that] by (simp add: file_link_def place_def)
  ultimately show ?thesis using scanned_files_all_files by blast
qed

theorem excluded_files_never_scanned_witness:
  "scanned_files
     [File ''ch1.md'' ''BCC'', File ''index.md'' ''BCC'', File ''notes.txt'' ''BCC'',
      Dir ''images'' [File ''fig.md'' ''BCC''],
      Dir ''part'' [Dir ''back_matter'' [File ''x.md'' ''BCC''], File ''ch2.md'' ''bcc'']]
   = [(''book'', ''ch1.md'', ''BCC''), (''book/part'', ''ch2.md'', ''bcc'')] \<and>
   index_get (scan_files
     [File ''ch1.md'' ''BCC'', File ''index.md'' ''BCC'', File ''notes.txt'' ''BCC'',
      Dir ''images'' [File ''fig.md'' ''BCC''],
      Dir ''part'' [Dir ''back_matter'' [File ''x.md'' ''BCC''], File ''ch2.md'' ''bcc'']]) ''BCC''
   = [(''ch1.md'', ''ch1.md''), (''ch2.md'', ''part/ch2.md'')]"
proof -
  let ?B = "[File ''ch1.md'' ''BCC'', File ''index.md'' ''BCC'', File ''notes.txt'' ''BCC'',
      Dir ''images'' [File ''fig.md'' ''BCC''],
      Dir ''part'' [Dir ''back_matter'' [File ''x.md'' ''BCC''], File ''ch2.md'' ''bcc'']]"
  have "map place (filter (\<lambda>x. \<not> excluded x) (all_files ?B))
        = [(''book'', ''ch1.md'', ''BCC''), (''book/part'', ''ch2.md'', ''bcc'')]"
    by code_simp
  with excluded_files_never_scanned[of ?B]
  have s: "scanned_files ?B = [(''book'', ''ch1.md'', ''BCC''), (''book/part'', ''ch2.md'', ''bcc'')]"
    by simp
  have "(if ''BCC'' \<in> set EXPLICIT_TERMS
         then map file_link (filter (\<lambda>(r, f, c). term_hit ''BCC'' c)
                [(''book'', ''ch1.md'', ''BCC''), (''book/part'', ''ch2.md'', ''bcc'')])
         else []) = [(''ch1.md'', ''ch1.md''), (''ch2.md'', ''part/ch2.md'')]"
    by code_simp
  then have "index_get (scan_files ?B) ''BCC'' = [(''ch1.md'', ''ch1.md''), (''ch2.md'', ''part/ch2.md'')]"
    unfolding index_get_scan_files s .
  with s show ?thesis by blast
qed



text \<open>
  Claim C10. The link rendered for a title on the line of a term carries the path of the
  last pair recorded for the term with that title; the paths of the earlier pairs with
  the same title are dropped.
\<close>

theorem last_path_wins:
  assumes "generate_index_md index = Inr md"
  shows "md = render_page (index_lines index) \<and>
         (\<forall>term links title path. TermLine term links \<in> set (index_lines index) \<longrightarrow>
            ((title, path) \<in> set links \<longleftrightarrow>
               (\<exists>pre post. index_get index term = pre @ (title, path) # post \<and>
                           title \<notin> fst ` set post)))"
proof -
  from assms have md: "md = render_page (index_lines index)"
    by (simp add: generate_index_md_lines split: if_splits)
  have "(title, path) \<in> set links \<longleftrightarrow>
          (\<exists>pre post. index_get index term = pre @ (title, path) # post \<and>
                      title \<notin> fst ` set post)"
    if "TermLine term links \<in> set (index_lines index)" for "term" links title path
    using index_lines_TermLine[OF that] by (simp add: unique_links_last)
  with md show ?thesis by blast
qed

theorem last_path_wins_witness:
  "generate_index_md [(''GPU'', [(''Intro'', ''a.md''), (''Setup'', ''s.md''), (''Intro'', ''z/b.md'')])]
     = Inr ''# Index\<newline>\<newline>\<newline>## G\<newline>\<newline>- **GPU**: [Intro](../z/b.md), [Setup](../s.md)\<newline>'' \<and>
   index_lines [(''GPU'', [(''Intro'', ''a.md''), (''Setup'', ''s.md''), (''Intro'', ''z/b.md'')])]
     = [Section ''G'', TermLine ''GPU'' [(''Intro'', ''z/b.md''), (''Setup'', ''s.md'')]] \<and>
   (\<exists>pre post.
      index_get [(''GPU'', [(''Intro'', ''a.md''), (''Setup'', ''s.md''), (''Intro'', ''z/b.md'')])] ''GPU''
        = pre @ (''Intro'', ''z/b.md'') # post \<and> ''Intro'' \<notin> fst ` set post) \<and>
   \<not> (\<exists>pre post.
      index_get [(''GPU'', [(''Intro'', ''a.md''), (''Setup'', ''s.md''), (''Intro'', ''z/b.md'')])] ''GPU''
        = pre @ (''Intro'', ''a.md'') # post \<and> ''Intro'' \<notin> fst ` set post)"
proof -
  let ?I = "[(''GPU'', [(''Intro'', ''a.md''), (''Setup'', ''s.md''), (''Intro'', ''z/b.md'')])]"
  let ?links = "[(''Intro'', ''z/b.md''), (''Setup'', ''s.md'')]"
  have g: "generate_index_md ?I
     = Inr ''# Index\<newline>\<newline>\<newline>## G\<newline>\<newline>- **GPU**: [Intro](../z/b.md), [Setup](../s.md)\<newline>''"
    by code_simp
  have l: "index_lines ?I = [Section ''G'', TermLine ''GPU'' ?links]"
    by code_simp
  then have m: "TermLine ''GPU'' ?links \<in> set (index_lines ?I)" by simp
  have i: "(''Intro'', ''z/b.md'') \<in> set ?links" and n: "(''Intro'', ''a.md'') \<notin> set ?links"
    by simp_all
  from last_path_wins[OF g] m
  have "\<forall>title path. (title, path) \<in> set ?links \<longleftrightarrow>
          (\<exists>pre post. index_get ?I ''GPU'' = pre @ (title, path) # post \<and>
                      title \<notin> fst ` set post)"
    by blast
  with i n have
    "(\<exists>pre post. index_get ?I ''GPU'' = pre @ (''Intro'', ''z/b.md'') # post \<and>
                 ''Intro'' \<notin> fst ` set post) \<and>
     \<not> (\<exists>pre post. index_get ?I ''GPU'' = pre @ (''Intro'', ''a.md'') # post \<and>
                 ''Intro'' \<notin> fst ` set post)"
    by blast
  with g l show ?thesis by blast
qed

section \<open>Properties of the figure generator\<close>

lemmas fig_defs = figures_main_def try_body_def ensure_output_dir_def plot_neighbor_lookup_def
  plot_memory_usage_def plot_isotropy_def print_line_def savefig_def plot_outcomes_def
  FIGURE_NAMES_def OUTPUT_DIR_def path_join_def startswith_def endswith_def Let_def

text \<open>
  Claim C3. When one of the three plotting calls raises, the handler of \<open>main\<close>
  catches it: \<open>main\<close> returns normally, the exit status is 0, the console shows
  the progress lines of the figures saved before, then the message of the exception and
  the installation hint, and no figure from the raising call on is saved.
\<close>

theorem plot_exception_is_caught:
  assumes "output_dir_exists env \<or> makedirs_outcome env = Returns"
    and "first_raise (plot_outcomes env) = Some (k, e)"
  shows "(\<exists>s. figures_main env = Inr s \<and>
              console s =
                ''Generating figures in book/images...''
                # map (\<lambda>n. ''Generated '' @ n) (take k FIGURE_NAMES)
                @ [''Error generating plots: '' @ e,
                   ''Ensure matplotlib is installed: pip install matplotlib''] \<and>
              saved_files s = map (path_join OUTPUT_DIR) (take k FIGURE_NAMES)) \<and>
         figures_exit_status env = 0"
proof -
  obtain a b c where o: "neighbor_lookup_outcome env = a" "memory_usage_outcome env = b"
    "isotropy_outcome env = c" by blast
  show ?thesis
    using assms o
    by (cases a; cases b; cases c)
       (auto simp: fig_defs figures_exit_status_def split: call_outcome.splits)
qed

theorem plot_exception_is_caught_witness:
  "(\<exists>s. figures_main \<lparr>output_dir_exists = True, makedirs_outcome = Returns,
            neighbor_lookup_outcome = Returns, memory_usage_outcome = Raises ''no display'',
            isotropy_outcome = Returns\<rparr> = Inr s \<and>
        console s = [''Generating figures in book/images...'',
                     ''Generated benchmark_neighbor_lookup.png'',
                     ''Error generating plots: no display'',
                     ''Ensure matplotlib is installed: pip install matplotlib''] \<and>
        saved_files s = [''book/images/benchmark_neighbor_lookup.png''])"
  using plot_exception_is_caught [of "\<lparr>output_dir_exists = True, makedirs_outcome = Returns,
            neighbor_lookup_outcome = Returns, memory_usage_outcome = Raises ''no display'',
            isotropy_outcome = Returns\<rparr>" 1 "''no display''"]
  by (simp add: plot_outcomes_def FIGURE_NAMES_def OUTPUT_DIR_def path_join_def startswith_def endswith_def)

text \<open>
  Claim C8. When \<open>os.makedirs\<close> does not fail, \<open>main\<close> returns normally, having
  made \<open>book/images\<close> exactly when it did not exist; if moreover no plotting call
  raises, the files saved are the three fixed names under \<open>book/images\<close>, once each.
\<close>

theorem figures_run_outputs:
  assumes "makedirs_outcome env = Returns"
  shows "\<exists>s. figures_main env = Inr s \<and>
             made_dirs s = (if output_dir_exists env then [] else [''book/images'']) \<and>
             (first_raise (plot_outcomes env) = None \<longrightarrow>
                saved_files s = [''book/images/benchmark_neighbor_lookup.png'',
                                 ''book/images/benchmark_memory_efficiency.png'',
                                 ''book/images/benchmark_isotropy.png''])"
proof -
  obtain a b c where o: "neighbor_lookup_outcome env = a" "memory_usage_outcome env = b"
    "isotropy_outcome env = c" by blast
  show ?thesis
    using assms o
    by (cases a; cases b; cases c)
       (auto simp: fig_defs split: call_outcome.splits)
qed

theorem figures_run_outputs_witness:
  "\<exists>s. figures_main \<lparr>output_dir_exists = False, makedirs_outcome = Returns,
            neighbor_lookup_outcome = Returns, memory_usage_outcome = Returns,
            isotropy_outcome = Returns\<rparr> = Inr s \<and>
        made_dirs s = [''book/images''] \<and>
        saved_files s = [''book/images/benchmark_neighbor_lookup.png'',
                         ''book/images/benchmark_memory_efficiency.png'',
                         ''book/images/benchmark_isotropy.png'']"
  using figures_run_outputs [of "\<lparr>output_dir_exists = False, makedirs_outcome = Returns,
            neighbor_lookup_outcome = Returns, memory_usage_outcome = Returns,
            isotropy_outcome = Returns\<rparr>"]
  by (simp add: plot_outcomes_def)

end
